theory Spec2Isabelle
  imports Main "HOL-Library.Word" "HOL-Library.Log_Nat"
begin

section \<open>Data model of \<^verbatim>\<open>src/filter/medianFilter.go\<close>\<close>

text \<open>
  A pixel grid is Go's \<^verbatim>\<open>[][]uint8\<close>: a list of rows of 8-bit words. Go's \<^verbatim>\<open>int\<close> is the
  64-bit signed integer: a value of \<^typ>\<open>int\<close> between \<open>MinInt64\<close> and \<open>MaxInt64\<close>, and every
  sum and difference the program computes is wrapped by \<open>i64\<close>. A call of a Go function
  has one of three outcomes: it returns a value (\<open>Some (Inr v)\<close>), it panics
  (\<open>Some (Inl p)\<close>), or it does not end (\<open>None\<close>).
\<close>

type_synonym u8 = "8 word"

type_synonym u32 = "32 word"

type_synonym matrix = "u8 list list"

datatype panic = IndexOutOfRange | MakesliceLenOutOfRange | IntegerDivideByZero | OtherPanic

type_synonym 'a outcome = "(panic + 'a) option"

definition MinInt64 :: int where
  "MinInt64 = - (2 ^ 63)"

definition MaxInt64 :: int where
  "MaxInt64 = 2 ^ 63 - 1"

definition is_int64 :: "int \<Rightarrow> bool" where
  "is_int64 x = (MinInt64 \<le> x \<and> x \<le> MaxInt64)"

text \<open>The value of a 64-bit signed operation whose exact result is \<open>x\<close>: two's complement wrap-around.\<close>

definition i64 :: "int \<Rightarrow> int" where
  "i64 x = signed_take_bit 63 x"

text \<open>
  The read-only view \<^verbatim>\<open>func(y, x int) uint8\<close>. A call of the closure may panic: the
  closure built by \<^verbatim>\<open>makeImmutableMatrix\<close> indexes a slice, and \<open>OtherPanic\<close> stands for
  any other panic a closure passed as the source may raise.
\<close>

type_synonym getter = "int \<Rightarrow> int \<Rightarrow> panic + u8"

subsection \<open>Slices\<close>

text \<open>\<^verbatim>\<open>xs[i]\<close> as an expression: Go panics when the index is out of range.\<close>

definition index :: "'a list \<Rightarrow> int \<Rightarrow> panic + 'a" where
  "index xs i = (if 0 \<le> i \<and> i < int (length xs) then Inr (xs ! nat i) else Inl IndexOutOfRange)"

text \<open>\<^verbatim>\<open>xs[i] = v\<close> as a statement, with the same range check.\<close>

definition assign :: "'a list \<Rightarrow> int \<Rightarrow> 'a \<Rightarrow> panic + 'a list" where
  "assign xs i v = (if 0 \<le> i \<and> i < int (length xs) then Inr (xs[nat i := v]) else Inl IndexOutOfRange)"

text \<open>
  \<^verbatim>\<open>make([]T, len)\<close>: the runtime's \<^verbatim>\<open>makeslice\<close> panics with \<^verbatim>\<open>len out of range\<close> when the
  length is negative or \<open>elemsize * len\<close> bytes, \<open>elemsize\<close> being the size of \<open>T\<close>, exceed \<open>maxAlloc\<close>,
  which is \<open>2^48\<close> on the 64-bit platforms (\<^verbatim>\<open>1 << heapAddrBits\<close>). Below that limit the
  allocation is taken to succeed: running out of memory is a fatal error of the runtime,
  not a panic, and depends on the machine.
\<close>

definition maxAlloc :: int where
  "maxAlloc = 2 ^ 48"

definition makeslice_ok :: "int \<Rightarrow> int \<Rightarrow> bool" where
  "makeslice_ok elemsize len = (0 \<le> len \<and> elemsize * len \<le> maxAlloc)"

subsection \<open>Loops\<close>

text \<open>
  \<^verbatim>\<open>for i := lo; i < hi; i++ { body }\<close> where the body changes neither \<open>i\<close> nor \<open>hi\<close>:
  the body maps the loop index and the state before the iteration to the outcome of the
  iteration. A panic ends the loop; \<open>i++\<close> wraps around as every addition does.
\<close>

partial_function (option) for_lt ::
  "int \<Rightarrow> int \<Rightarrow> (int \<Rightarrow> 's \<Rightarrow> (panic + 's) option) \<Rightarrow> 's \<Rightarrow> (panic + 's) option" where
  "for_lt i hi body s =
     (if i < hi then
        (case body i s of
           None \<Rightarrow> None
         | Some r \<Rightarrow>
             (case r of
                Inl e \<Rightarrow> Some (Inl e)
              | Inr s' \<Rightarrow> for_lt (i64 (i + 1)) hi body s'))
      else Some (Inr s))"

text \<open>
  \<^verbatim>\<open>for k := lo; k <= hi; k++ { body }\<close>. With \<open>hi = MaxInt64\<close> the condition never fails:
  the loop ends only by a panic of the body.
\<close>

partial_function (option) for_le ::
  "int \<Rightarrow> int \<Rightarrow> (int \<Rightarrow> 's \<Rightarrow> (panic + 's) option) \<Rightarrow> 's \<Rightarrow> (panic + 's) option" where
  "for_le k hi body s =
     (if k \<le> hi then
        (case body k s of
           None \<Rightarrow> None
         | Some r \<Rightarrow>
             (case r of
                Inl e \<Rightarrow> Some (Inl e)
              | Inr s' \<Rightarrow> for_le (i64 (k + 1)) hi body s'))
      else Some (Inr s))"

declare for_lt.simps [code] for_le.simps [code]

subsection \<open>\<^verbatim>\<open>makeMatrix\<close> and \<^verbatim>\<open>makeImmutableMatrix\<close>\<close>

text \<open>
  \<^verbatim>\<open>make([][]uint8, height)\<close> makes \<open>height\<close> slice headers of 24 bytes;
  \<^verbatim>\<open>make([]uint8, width)\<close> runs once for each row, hence only when there is a row.
\<close>

definition makeMatrix :: "int \<Rightarrow> int \<Rightarrow> panic + matrix" where
  "makeMatrix height width =
     (if \<not> makeslice_ok 24 height then Inl MakesliceLenOutOfRange
      else if 0 < height \<and> \<not> makeslice_ok 1 width then Inl MakesliceLenOutOfRange
      else Inr (replicate (nat height) (replicate (nat width) 0)))"

definition makeImmutableMatrix :: "matrix \<Rightarrow> getter" where
  "makeImmutableMatrix matrix =
     (\<lambda>y x. case index matrix y of
               Inl e \<Rightarrow> Inl e
             | Inr row \<Rightarrow> index row x)"

section \<open>The median filter kernel\<close>

text \<open>
  Body of the innermost loop (line 59-60): \<^verbatim>\<open>filterValues[count] = int(data(k, l)); count++\<close>.
  The state is the sample buffer and the counter.
\<close>

definition collect_cell :: "getter \<Rightarrow> int \<Rightarrow> int \<Rightarrow> int list \<times> int \<Rightarrow> panic + int list \<times> int" where
  "collect_cell data k l = (\<lambda>(filterValues, count).
     case data k l of
       Inl e \<Rightarrow> Inl e
     | Inr v \<Rightarrow>
         (case assign filterValues count (uint v) of
            Inl e \<Rightarrow> Inl e
          | Inr filterValues' \<Rightarrow> Inr (filterValues', i64 (count + 1))))"

text \<open>Lines 56-62: \<open>count := 0\<close> and the two loops over the window around \<open>(i, j)\<close>.\<close>

definition collect_window :: "getter \<Rightarrow> int \<Rightarrow> int \<Rightarrow> int \<Rightarrow> int list \<Rightarrow> (int list \<times> int) outcome" where
  "collect_window data radius i j filterValues =
     for_le (i64 (i - radius)) (i64 (i + radius))
       (\<lambda>k. for_le (i64 (j - radius)) (i64 (j + radius)) (\<lambda>l s. Some (collect_cell data k l s)))
       (filterValues, 0)"

text \<open>
  Body of the loop over \<open>j\<close> (lines 56-64): collect the window, \<^verbatim>\<open>sort.Ints\<close> the buffer in
  place, and store \<^verbatim>\<open>uint8(filterValues[midPoint])\<close> at \<open>[i-startY][j-startX]\<close>. The buffer
  is shared by all iterations, so it is part of the state with the output grid.
\<close>

definition filter_pixel ::
  "getter \<Rightarrow> int \<Rightarrow> int \<Rightarrow> int \<Rightarrow> int \<Rightarrow> int \<Rightarrow> int \<Rightarrow> int list \<times> matrix \<Rightarrow> (int list \<times> matrix) outcome" where
  "filter_pixel data startY startX radius midPoint i j = (\<lambda>(filterValues, filteredMatrix).
     case collect_window data radius i j filterValues of
       None \<Rightarrow> None
     | Some (Inl e) \<Rightarrow> Some (Inl e)
     | Some (Inr (collected, count)) \<Rightarrow>
         (let sorted = sort collected in
          case index filteredMatrix (i64 (i - startY)) of
            Inl e \<Rightarrow> Some (Inl e)
          | Inr row \<Rightarrow>
              (case index sorted midPoint of
                 Inl e \<Rightarrow> Some (Inl e)
               | Inr v \<Rightarrow>
                   (case assign row (i64 (j - startX)) (word_of_int v) of
                      Inl e \<Rightarrow> Some (Inl e)
                    | Inr row' \<Rightarrow> Some (Inr (sorted, filteredMatrix[nat (i64 (i - startY)) := row']))))))"

definition medianFilter :: "int \<Rightarrow> int \<Rightarrow> int \<Rightarrow> int \<Rightarrow> getter \<Rightarrow> matrix outcome" where
  "medianFilter startY endY startX endX data =
     (let height = i64 (endY - startY);
          width = i64 (endX - startX);
          radius = 2;
          midPoint = (5 * 5 + 1) div 2
      in case makeMatrix height width of
           Inl e \<Rightarrow> Some (Inl e)
         | Inr filteredMatrix \<Rightarrow>
             (case for_lt (i64 (radius + startY)) (i64 (endY - radius))
                     (\<lambda>i. for_lt (i64 (radius + startX)) (i64 (endX - radius))
                        (\<lambda>j. filter_pixel data startY startX radius midPoint i j))
                     (replicate (5 * 5) 0, filteredMatrix) of
                None \<Rightarrow> None
              | Some (Inl e) \<Rightarrow> Some (Inl e)
              | Some (Inr (filterValues, filteredMatrix')) \<Rightarrow> Some (Inr filteredMatrix')))"

section \<open>The coordinator: \<^verbatim>\<open>filter\<close>, lines 125-162\<close>

text \<open>
  Go's integer division truncates towards zero and panics on a zero divisor; the caller
  checks the divisor.
\<close>

definition quot :: "int \<Rightarrow> int \<Rightarrow> int" where
  "quot a b = sgn a * sgn b * (\<bar>a\<bar> div \<bar>b\<bar>)"

text \<open>
  Lines 139-143: the rows \<open>[startY, endY)\<close> of worker \<open>t\<close>. For \<open>0 \<le> t < threads\<close> the products
  \<open>t * partitionSize\<close> and \<open>(t + 1) * partitionSize\<close> lie between 0 and \<open>height\<close>, so they do
  not overflow.
\<close>

definition band :: "int \<Rightarrow> int \<Rightarrow> int \<Rightarrow> int \<Rightarrow> int \<times> int" where
  "band height threads partitionSize t =
     (let startY = t * partitionSize;
          endY = (t + 1) * partitionSize
      in if t = threads - 1 then (startY, height) else (startY, endY))"

text \<open>Lines 138-147: the bounds handed to the workers, in the order of dispatch.\<close>

definition bands :: "int \<Rightarrow> int \<Rightarrow> (int \<times> int) list" where
  "bands height threads = map (band height threads (quot height threads)) [0..threads - 1]"

text \<open>
  Lines 129-147, up to the last \<^verbatim>\<open>go worker(...)\<close>: the slice of channels is made
  (a channel is a pointer of 8 bytes), the height is divided by the thread count, and one
  worker is started for each band. The result is the list of the bands whose workers were
  started; a panic here happens before the first worker is started.
\<close>

definition dispatch :: "int \<Rightarrow> int \<Rightarrow> panic + (int \<times> int) list" where
  "dispatch height threads =
     (if \<not> makeslice_ok 8 threads then Inl MakesliceLenOutOfRange
      else if threads = 0 then Inl IntegerDivideByZero
      else Inr (bands height threads))"

text \<open>\<^verbatim>\<open>worker\<close> runs the kernel and sends the grid on its channel.\<close>

definition worker :: "int \<Rightarrow> int \<Rightarrow> int \<Rightarrow> int \<Rightarrow> getter \<Rightarrow> matrix outcome" where
  "worker startY endY startX endX data = medianFilter startY endY startX endX data"

text \<open>Line 158: \<^verbatim>\<open>newPixelData[i][j] = partialResult[i-startY][j]\<close>.\<close>

definition copy_cell :: "matrix \<Rightarrow> int \<Rightarrow> int \<Rightarrow> int \<Rightarrow> matrix \<Rightarrow> panic + matrix" where
  "copy_cell partialResult startY i j newPixelData =
     (case index newPixelData i of
        Inl e \<Rightarrow> Inl e
      | Inr row \<Rightarrow>
          (case index partialResult (i - startY) of
             Inl e \<Rightarrow> Inl e
           | Inr prow \<Rightarrow>
               (case index prow j of
                  Inl e \<Rightarrow> Inl e
                | Inr v \<Rightarrow>
                    (case assign row j v of
                       Inl e \<Rightarrow> Inl e
                     | Inr row' \<Rightarrow> Inr (newPixelData[nat i := row'])))))"

text \<open>
  Lines 153-161, one iteration: receive the grid of worker \<open>t\<close> from channel \<open>t\<close> and copy it
  to the rows from \<open>t * partitionSize\<close> on. The workers only read the shared view and each
  has a channel of its own, received in the order of \<open>t\<close>, so the grid received from channel
  \<open>t\<close> is the outcome of the kernel on band \<open>t\<close>; a panic in a worker ends the program. The
  rows \<open>i\<close> lie between 0 and \<open>height\<close>, so \<open>startY + len(partialResult)\<close>, \<open>i - startY\<close> and
  \<open>i++\<close> do not overflow.
\<close>

definition merge_band ::
  "int \<Rightarrow> int \<Rightarrow> getter \<Rightarrow> (int \<times> int) list \<Rightarrow> int \<Rightarrow> matrix \<Rightarrow> matrix outcome" where
  "merge_band width partitionSize data tasks t newPixelData =
     (case index tasks t of
        Inl e \<Rightarrow> Some (Inl e)
      | Inr (bandStart, bandEnd) \<Rightarrow>
          (case worker bandStart bandEnd 0 width data of
             None \<Rightarrow> None
           | Some (Inl e) \<Rightarrow> Some (Inl e)
           | Some (Inr partialResult) \<Rightarrow>
               (let startY = t * partitionSize
                in for_lt startY (startY + int (length partialResult))
                     (\<lambda>i. for_lt 0 width (\<lambda>j m. Some (copy_cell partialResult startY i j m)))
                     newPixelData)))"

text \<open>
  The part of \<^verbatim>\<open>filter\<close> between the decoder and the encoder: \<open>height\<close> and \<open>width\<close> are the
  image's, \<open>immutableData\<close> the view of its luminance grid.
\<close>

definition filter_run :: "int \<Rightarrow> int \<Rightarrow> int \<Rightarrow> getter \<Rightarrow> matrix outcome" where
  "filter_run height width threads immutableData =
     (if threads = 1 then medianFilter 0 height 0 width immutableData
      else
        (case dispatch height threads of
           Inl e \<Rightarrow> Some (Inl e)
         | Inr tasks \<Rightarrow>
             (case makeMatrix height width of
                Inl e \<Rightarrow> Some (Inl e)
              | Inr newPixelData \<Rightarrow>
                  for_lt 0 threads
                    (merge_band width (quot height threads) immutableData tasks)
                    newPixelData)))"

section \<open>The luminance extractor: \<^verbatim>\<open>getPixelData\<close>, lines 71-85\<close>

text \<open>
  A decoded image: its bounds and, for each point, the four 32-bit values that
  \<^verbatim>\<open>img.At(x, y).RGBA()\<close> returns (by the contract of \<^verbatim>\<open>color.Color\<close> each is at most
  \<^verbatim>\<open>0xffff\<close>).
\<close>

record image =
  img_minX :: int
  img_minY :: int
  img_maxX :: int
  img_maxY :: int
  img_rgba :: "int \<Rightarrow> int \<Rightarrow> u32 \<times> u32 \<times> u32 \<times> u32"

text \<open>
  Line 79 is computed in \<^verbatim>\<open>float64\<close>, IEEE 754 binary64 with rounding to nearest, ties to
  even. Every value that occurs there is a non-negative multiple of \<open>2^-56\<close>, so a value \<open>v\<close> is
  represented by the integer \<open>v * 2^56\<close>. \<open>round53\<close> rounds such a value to 53 significant
  bits: \<open>bitlen n\<close> is the number of bits of \<open>n\<close>, and a value of more than 53 bits is rounded
  to the nearest multiple of \<open>2^(bitlen n - 53)\<close>. (No value is small or large enough for a
  subnormal result or an overflow.)
\<close>

definition round53 :: "int \<Rightarrow> int" where
  "round53 n =
     (let d = bitlen n - 53
      in if d \<le> 0 then n
         else
           (let p = 2 ^ nat d;
                q = n div p;
                r = n mod p;
                half = p div 2
            in (if r < half \<or> (r = half \<and> even q) then q else q + 1) * p))"

text \<open>
  The constants \<^verbatim>\<open>0.299\<close>, \<^verbatim>\<open>0.587\<close> and \<^verbatim>\<open>0.114\<close> as \<^verbatim>\<open>float64\<close> values, times \<open>2^56\<close>: the
  compiler converts a constant to the nearest \<^verbatim>\<open>float64\<close>.
\<close>

definition c299 :: int where
  "c299 = 21545220617340452"

definition c587 :: int where
  "c587 = 42297807700263696"

definition c114 :: int where
  "c114 = 8214565720323785"

text \<open>
  \<^verbatim>\<open>lum := 0.299*float64(r) + 0.587*float64(g) + 0.114*float64(b)\<close>, times \<open>2^56\<close>. The
  conversion of a 32-bit integer to \<^verbatim>\<open>float64\<close> is exact; each product and each of the two
  sums, taken from left to right, is rounded, as the compiler does for \<^verbatim>\<open>amd64\<close>. (Go allows
  a compiler to fuse a product with the following sum, rounding once; where the products
  are exact, as for the channel values \<open>256\<close> and \<open>512\<close>, this gives the same value.)
\<close>

definition lum :: "int \<Rightarrow> int \<Rightarrow> int \<Rightarrow> int" where
  "lum r g b = round53 (round53 (round53 (c299 * r) + round53 (c587 * g)) + round53 (c114 * b))"

text \<open>
  \<^verbatim>\<open>uint8(lum / 256)\<close>: the division by a power of two is exact, and the conversion drops
  the fraction. For channel values up to \<^verbatim>\<open>0xffff\<close> the quotient is below 256 (lemma
  \<open>luma_sample_spec\<close>), and only these are considered below: Go leaves the conversion of a
  larger value to the implementation.
\<close>

definition luma_sample :: "u32 \<Rightarrow> u32 \<Rightarrow> u32 \<Rightarrow> u8" where
  "luma_sample r g b = word_of_int (lum (uint r) (uint g) (uint b) div 2 ^ 64)"

text \<open>Line 78-80 for one point: the alpha value is dropped.\<close>

definition set_pixel :: "image \<Rightarrow> int \<Rightarrow> int \<Rightarrow> matrix \<Rightarrow> panic + matrix" where
  "set_pixel img y x pixels =
     (case img_rgba img x y of (r, g, b, a) \<Rightarrow>
        (case index pixels y of
           Inl e \<Rightarrow> Inl e
         | Inr row \<Rightarrow>
             (case assign row x (luma_sample r g b) of
                Inl e \<Rightarrow> Inl e
              | Inr row' \<Rightarrow> Inr (pixels[nat y := row']))))"

text \<open>
  \<^verbatim>\<open>getPixelData\<close>. \<^verbatim>\<open>bounds.Dy()\<close> and \<^verbatim>\<open>bounds.Dx()\<close> are differences of the bounds; the
  counter \<^verbatim>\<open>curr\<close> is never read and is left out.
\<close>

definition getPixelData :: "image \<Rightarrow> matrix outcome" where
  "getPixelData img =
     (case makeMatrix (i64 (img_maxY img - img_minY img)) (i64 (img_maxX img - img_minX img)) of
        Inl e \<Rightarrow> Some (Inl e)
      | Inr pixels \<Rightarrow>
          for_lt (img_minY img) (img_maxY img)
            (\<lambda>y. for_lt (img_minX img) (img_maxX img) (\<lambda>x m. Some (set_pixel img y x m)))
            pixels)"

text \<open>
  The formula of the specification, \<open>\<lfloor>(0.299 R + 0.587 G + 0.114 B) / 256\<rfloor>\<close> over the real
  numbers, in integers: \<open>\<lfloor>(299 R + 587 G + 114 B) / 256000\<rfloor>\<close>.
\<close>

definition spec_luminance :: "int \<Rightarrow> int \<Rightarrow> int \<Rightarrow> int" where
  "spec_luminance r g b = (299 * r + 587 * g + 114 * b) div 256000"

section \<open>Closed forms and test data\<close>

text \<open>
  The bounds \<open>s\<close> and \<open>e\<close> of a region along one axis are \<^verbatim>\<open>int\<close> values at least 2 away
  from the limits: \<open>radius + s\<close> and \<open>e - radius\<close> do not overflow.
\<close>

definition away_from_limits :: "int \<Rightarrow> int \<Rightarrow> bool" where
  "away_from_limits s e = (MinInt64 \<le> s \<and> s \<le> MaxInt64 - 2 \<and> MinInt64 + 2 \<le> e \<and> e \<le> MaxInt64)"

text \<open>
  What the loops of the kernel compute, written without loops: the 25 samples of the window
  around \<open>(y, x)\<close>, widened to \<^typ>\<open>int\<close> and listed row by row as the loops over \<open>k\<close> and \<open>l\<close>
  store them, and the value the kernel writes for that window. \<open>f\<close> gives the samples of a
  source whose reads succeed.
\<close>

definition window_samples :: "(int \<Rightarrow> int \<Rightarrow> u8) \<Rightarrow> int \<Rightarrow> int \<Rightarrow> int list" where
  "window_samples f y x =
     concat (map (\<lambda>k. map (\<lambda>l. uint (f k l)) [x - 2..x + 2]) [y - 2..y + 2])"

text \<open>
  Lines 63-64 on a collected window: the entry at index \<open>midPoint = (5*5 + 1) / 2 = 13\<close> of
  the sorted samples, narrowed to 8 bits.
\<close>

definition kernel_cell :: "(int \<Rightarrow> int \<Rightarrow> u8) \<Rightarrow> int \<Rightarrow> int \<Rightarrow> u8" where
  "kernel_cell f y x = word_of_int (sort (window_samples f y x) ! 13)"

text \<open>A grid of \<open>h\<close> rows that all have \<open>w\<close> columns.\<close>

definition has_shape :: "'a list list \<Rightarrow> int \<Rightarrow> int \<Rightarrow> bool" where
  "has_shape m h w = (int (length m) = h \<and> list_all (\<lambda>r. int (length r) = w) m)"

text \<open>Every cell less than 2 away from an edge of an \<open>h\<close> by \<open>w\<close> grid is 0.\<close>

definition zero_border :: "matrix \<Rightarrow> int \<Rightarrow> int \<Rightarrow> bool" where
  "zero_border m h w =
     (\<forall>a b. 0 \<le> a \<and> a < h \<and> 0 \<le> b \<and> b < w \<and> (a < 2 \<or> h - 2 \<le> a \<or> b < 2 \<or> w - 2 \<le> b)
        \<longrightarrow> m ! nat a ! nat b = 0)"

text \<open>A 5 by 5 image with 25 different samples, numbered row by row.\<close>

definition grid5x5 :: matrix where
  "grid5x5 =
     [[0, 1, 2, 3, 4],
      [5, 6, 7, 8, 9],
      [10, 11, 12, 13, 14],
      [15, 16, 17, 18, 19],
      [20, 21, 22, 23, 24]]"

section \<open>Loop rules\<close>

lemma i64_id: "is_int64 x \<Longrightarrow> i64 x = x"
  by (simp add: i64_def is_int64_def MinInt64_def MaxInt64_def signed_take_bit_int_eq_self)

lemma i64_succ: "MinInt64 \<le> i \<Longrightarrow> i < hi \<Longrightarrow> hi \<le> MaxInt64 \<Longrightarrow> i64 (i + 1) = i + 1"
  by (rule i64_id) (simp add: is_int64_def)

lemma for_lt_stop: "hi \<le> lo \<Longrightarrow> for_lt lo hi body s = Some (Inr s)"
  by (subst for_lt.simps) simp

lemma for_lt_step:
  assumes "MinInt64 \<le> lo" and "lo < hi" and "hi \<le> MaxInt64"
  shows "for_lt lo hi body s =
     (case body lo s of
        None \<Rightarrow> None
      | Some r \<Rightarrow> (case r of Inl e \<Rightarrow> Some (Inl e) | Inr s' \<Rightarrow> for_lt (lo + 1) hi body s'))"
  using assms by (subst for_lt.simps) (simp add: i64_succ split: option.splits sum.splits)

lemma for_lt_total:
  assumes range: "MinInt64 \<le> lo" "hi \<le> MaxInt64"
    and init: "P lo s"
    and step: "\<And>i s. lo \<le> i \<Longrightarrow> i < hi \<Longrightarrow> P i s \<Longrightarrow> \<exists>s'. body i s = Some (Inr s') \<and> P (i + 1) s'"
  shows "\<exists>r. for_lt lo hi body s = Some (Inr r) \<and> P (max lo hi) r"
  using range(1) init step
proof (induction "nat (hi - lo)" arbitrary: lo s)
  case 0
  then have "hi \<le> lo" by simp
  then show ?case
    using "0.prems"(2) by (simp add: for_lt_stop max_def)
next
  case (Suc n)
  then have lt: "lo < hi" by simp
  from Suc.prems(3) [of lo s] lt Suc.prems(2)
  obtain s' where b: "body lo s = Some (Inr s')" and p: "P (lo + 1) s'"
    by auto
  have "\<exists>r. for_lt (lo + 1) hi body s' = Some (Inr r) \<and> P (max (lo + 1) hi) r"
  proof (rule Suc.hyps(1))
    show "n = nat (hi - (lo + 1))"
      using Suc.hyps(2) by simp
    show "MinInt64 \<le> lo + 1"
      using Suc.prems(1) by simp
    show "P (lo + 1) s'"
      by (rule p)
    fix k t
    assume "lo + 1 \<le> k" "k < hi" "P k t"
    then show "\<exists>s'. body k t = Some (Inr s') \<and> P (k + 1) s'"
      using Suc.prems(3) [of k t] by simp
  qed
  moreover have "max (lo + 1) hi = max lo hi"
    using lt by simp
  ultimately show ?case
    using lt b Suc.prems(1) range(2) by (simp add: for_lt_step)
qed

lemma for_lt_partial:
  assumes range: "MinInt64 \<le> lo" "hi \<le> MaxInt64"
    and run: "for_lt lo hi body s = Some (Inr r)"
    and init: "P lo s"
    and step: "\<And>i s s'. lo \<le> i \<Longrightarrow> i < hi \<Longrightarrow> P i s \<Longrightarrow> body i s = Some (Inr s') \<Longrightarrow> P (i + 1) s'"
  shows "P (max lo hi) r"
  using range(1) run init step
proof (induction "nat (hi - lo)" arbitrary: lo s)
  case 0
  then have "hi \<le> lo" by simp
  then show ?case
    using "0.prems"(2,3) by (simp add: for_lt_stop max_def)
next
  case (Suc n)
  then have lt: "lo < hi" by simp
  from Suc.prems(2) lt Suc.prems(1) range(2)
  obtain s' where b: "body lo s = Some (Inr s')"
    and rest: "for_lt (lo + 1) hi body s' = Some (Inr r)"
    by (auto simp: for_lt_step split: option.splits sum.splits)
  have p: "P (lo + 1) s'"
    using Suc.prems(4) [of lo s s'] lt Suc.prems(3) b by simp
  have "P (max (lo + 1) hi) r"
  proof (rule Suc.hyps(1) [OF _ _ rest p])
    show "n = nat (hi - (lo + 1))"
      using Suc.hyps(2) by simp
    show "MinInt64 \<le> lo + 1"
      using Suc.prems(1) by simp
    fix k t t'
    assume "lo + 1 \<le> k" "k < hi" "P k t" "body k t = Some (Inr t')"
    then show "P (k + 1) t'"
      using Suc.prems(4) [of k t t'] by simp
  qed
  moreover have "max (lo + 1) hi = max lo hi"
    using lt by simp
  ultimately show ?case by simp
qed

lemma for_lt_skip:
  assumes "MinInt64 \<le> lo" "hi \<le> MaxInt64"
    and "\<And>i. lo \<le> i \<Longrightarrow> i < hi \<Longrightarrow> body i s = Some (Inr s)"
  shows "for_lt lo hi body s = Some (Inr s)"
proof -
  have "\<exists>r. for_lt lo hi body s = Some (Inr r) \<and> r = s"
    using assms(1,2) by (rule for_lt_total [where P = "\<lambda>i t. t = s"]) (use assms(3) in auto)
  then show ?thesis by simp
qed

lemma for_lt_cong:
  assumes range: "MinInt64 \<le> lo" "hi \<le> MaxInt64"
    and eq: "\<And>i t. lo \<le> i \<Longrightarrow> i < hi \<Longrightarrow> body i t = body' i t"
  shows "for_lt lo hi body s = for_lt lo hi body' s"
  using range(1) eq
proof (induction "nat (hi - lo)" arbitrary: lo s)
  case 0
  then have "hi \<le> lo" by simp
  then show ?case
    by (simp add: for_lt_stop)
next
  case (Suc n)
  then have lt: "lo < hi" by simp
  have b: "body' lo s = body lo s"
    using Suc.prems(2) [of lo s] lt by simp
  have "for_lt (lo + 1) hi body t = for_lt (lo + 1) hi body' t" for t
  proof (rule Suc.hyps(1))
    show "n = nat (hi - (lo + 1))"
      using Suc.hyps(2) by simp
    show "MinInt64 \<le> lo + 1"
      using Suc.prems(1) by simp
    fix k u
    assume "lo + 1 \<le> k" "k < hi"
    then show "body k u = body' k u"
      using Suc.prems(2) [of k u] by simp
  qed
  then show ?case
    using lt Suc.prems(1) range(2) b
    by (simp add: for_lt_step split: option.splits sum.splits)
qed

lemma for_lt_split:
  assumes range: "MinInt64 \<le> lo" "hi \<le> MaxInt64"
    and "lo \<le> mid" and "mid \<le> hi"
  shows "for_lt lo hi body s =
           (case for_lt lo mid body s of
              None \<Rightarrow> None
            | Some r \<Rightarrow> (case r of Inl e \<Rightarrow> Some (Inl e) | Inr s' \<Rightarrow> for_lt mid hi body s'))"
  using range(1) assms(3)
proof (induction "nat (mid - lo)" arbitrary: lo s)
  case 0
  then have "mid = lo" by simp
  then show ?case
    by (simp add: for_lt_stop)
next
  case (Suc n)
  then have lt: "lo < mid" by simp
  then have lh: "lo < hi"
    using assms(4) by simp
  have m: "mid \<le> MaxInt64"
    using assms(4) range(2) by simp
  have ih: "for_lt (lo + 1) hi body t =
           (case for_lt (lo + 1) mid body t of
              None \<Rightarrow> None
            | Some r \<Rightarrow> (case r of Inl e \<Rightarrow> Some (Inl e) | Inr s' \<Rightarrow> for_lt mid hi body s'))" for t
  proof (rule Suc.hyps(1))
    show "n = nat (mid - (lo + 1))"
      using Suc.hyps(2) by simp
    show "MinInt64 \<le> lo + 1"
      using Suc.prems(1) by simp
    show "lo + 1 \<le> mid"
      using lt by simp
  qed
  show ?case
    using lt lh m Suc.prems(1) range(2) ih
    by (simp add: for_lt_step split: option.splits sum.splits)
qed

lemma for_lt_single:
  assumes "MinInt64 \<le> i" and "i < MaxInt64"
  shows "for_lt i (i + 1) body s = body i s"
  using assms by (simp add: for_lt_step for_lt_stop split: option.splits sum.splits)

lemma for_le_for_lt:
  assumes "MinInt64 \<le> lo" and "hi < MaxInt64"
  shows "for_le lo hi body s = for_lt lo (hi + 1) body s"
  using assms(1)
proof (induction "nat (hi + 1 - lo)" arbitrary: lo s)
  case 0
  then have "hi < lo" by simp
  then show ?case
    by (subst for_le.simps) (simp add: for_lt_stop)
next
  case (Suc n)
  then have le: "lo \<le> hi" by simp
  have s1: "i64 (lo + 1) = lo + 1"
    using le Suc.prems assms(2) by (intro i64_id) (simp add: is_int64_def)
  have "for_le (lo + 1) hi body t = for_lt (lo + 1) (hi + 1) body t" for t
  proof (rule Suc.hyps(1))
    show "n = nat (hi + 1 - (lo + 1))"
      using Suc.hyps(2) by simp
    show "MinInt64 \<le> lo + 1"
      using Suc.prems by simp
  qed
  then show ?case
    using le Suc.prems assms(2)
    by (subst for_le.simps) (simp add: s1 for_lt_step split: option.splits sum.splits)
qed

lemma for_le_for_lt_fun:
  assumes "MinInt64 \<le> lo" and "hi < MaxInt64"
  shows "for_le lo hi body = for_lt lo (hi + 1) body"
  using assms by (intro ext) (rule for_le_for_lt)

section \<open>The kernel: window and pixel\<close>

lemma i64_range: "is_int64 (i64 x)"
  using signed_take_bit_int_greater_eq_minus_exp [of 63 x] signed_take_bit_int_less_exp [of 63 x]
  by (simp add: i64_def is_int64_def MinInt64_def MaxInt64_def)

lemma i64_lower: "MinInt64 \<le> i64 x" and i64_upper: "i64 x \<le> MaxInt64"
  using i64_range [of x] by (simp_all add: is_int64_def)

lemma i64_id': "MinInt64 \<le> x \<Longrightarrow> x \<le> MaxInt64 \<Longrightarrow> i64 x = x"
  by (rule i64_id) (simp add: is_int64_def)

lemma i64_high:
  assumes "2 ^ 63 \<le> d" and "d < 2 ^ 64"
  shows "i64 d = d - 2 ^ 64"
proof -
  define a where "a = d + 2 ^ 63 - 2 ^ 64"
  have a: "0 \<le> a" "a < 2 ^ 64"
    using assms by (simp_all add: a_def)
  have "(a + 2 ^ 64) mod 2 ^ 64 = a"
    using a by simp
  moreover have "d + 2 ^ 63 = a + 2 ^ 64"
    by (simp add: a_def)
  ultimately have "(d + 2 ^ 63) mod 2 ^ 64 = a"
    by simp
  then show ?thesis
    by (simp add: i64_def signed_take_bit_eq_take_bit_shift take_bit_eq_mod a_def)
qed

lemma i64_extent:
  assumes "is_int64 s" and "is_int64 e" and "s \<le> e" and "0 \<le> i64 (e - s)"
  shows "i64 (e - s) = e - s"
proof (cases "e - s \<le> MaxInt64")
  case True
  then show ?thesis
    using assms(3) by (intro i64_id') (simp_all add: MinInt64_def)
next
  case False
  then have "2 ^ 63 \<le> e - s" "e - s < 2 ^ 64"
    using assms(1,2) by (simp_all add: is_int64_def MinInt64_def MaxInt64_def)
  then have "i64 (e - s) = e - s - 2 ^ 64"
    by (rule i64_high)
  with \<open>e - s < 2 ^ 64\<close> assms(4) show ?thesis
    by simp
qed

lemma makeslice_ok_int64: "makeslice_ok 24 n \<or> makeslice_ok 8 n \<or> makeslice_ok 1 n \<Longrightarrow> 0 \<le> n \<and> n \<le> MaxInt64"
  by (auto simp: makeslice_ok_def maxAlloc_def MaxInt64_def)

lemma take_Suc_update:
  "n < length xs \<Longrightarrow> take (Suc n) (xs[n := v]) = take n xs @ [v]"
  by (simp add: take_Suc_conv_app_nth)

lemma collect_cell_ok:
  assumes "data k l = Inr v" and "0 \<le> c" and "c < int (length fv)" and "c < MaxInt64"
  shows "collect_cell data k l (fv, c) = Inr (fv[nat c := uint v], c + 1)"
proof -
  have "i64 (c + 1) = c + 1"
    using assms(2,4) by (intro i64_id') (simp_all add: MinInt64_def)
  then show ?thesis
    using assms by (simp add: collect_cell_def assign_def)
qed

lemma collect_row:
  assumes range: "MinInt64 \<le> x - 2" "x + 2 < MaxInt64"
    and ok: "\<And>l. x - 2 \<le> l \<Longrightarrow> l \<le> x + 2 \<Longrightarrow> data k l = Inr (f k l)"
    and c: "0 \<le> c" "c + 5 \<le> int (length fv)" "c + 5 \<le> MaxInt64"
  shows "\<exists>fv'. for_le (x - 2) (x + 2) (\<lambda>l s. Some (collect_cell data k l s)) (fv, c) = Some (Inr (fv', c + 5))
           \<and> length fv' = length fv
           \<and> take (nat (c + 5)) fv' = take (nat c) fv @ map (\<lambda>l. uint (f k l)) [x - 2..x + 2]"
proof -
  define P where "P = (\<lambda>l (s :: int list \<times> int).
     snd s = c + (l - (x - 2)) \<and> length (fst s) = length fv
     \<and> take (nat (snd s)) (fst s) = take (nat c) fv @ map (\<lambda>l. uint (f k l)) [x - 2..l - 1])"
  have init: "P (x - 2) (fv, c)"
    by (simp add: P_def)
  have step: "\<exists>s'. Some (collect_cell data k l s) = Some (Inr s') \<and> P (l + 1) s'"
    if "x - 2 \<le> l" "l < x + 2 + 1" "P l s" for l s
  proof -
    obtain fv1 c1 where s: "s = (fv1, c1)"
      by (cases s)
    from that(3) have c1: "c1 = c + (l - (x - 2))" and len: "length fv1 = length fv"
      and tk: "take (nat c1) fv1 = take (nat c) fv @ map (\<lambda>l. uint (f k l)) [x - 2..l - 1]"
      by (auto simp: P_def s)
    have d: "data k l = Inr (f k l)"
      using ok that by simp
    have r1: "0 \<le> c1" "c1 < int (length fv1)" "c1 < MaxInt64"
      using c c1 len that by simp_all
    have cc: "collect_cell data k l s = Inr (fv1[nat c1 := uint (f k l)], c1 + 1)"
      unfolding s using d r1 by (rule collect_cell_ok)
    have n: "nat (c1 + 1) = Suc (nat c1)"
      using r1 by simp
    have u: "[x - 2..l + 1 - 1] = [x - 2..l - 1] @ [l]"
      using that(1) upto_rec2 [of "x - 2" l] by simp
    have "take (nat (c1 + 1)) (fv1[nat c1 := uint (f k l)])
            = take (nat c) fv @ map (\<lambda>l. uint (f k l)) [x - 2..l + 1 - 1]"
      unfolding n u using r1 by (simp add: take_Suc_update tk)
    then have "P (l + 1) (fv1[nat c1 := uint (f k l)], c1 + 1)"
      using c1 len by (simp add: P_def)
    with cc show ?thesis by simp
  qed
  have hi: "x + 2 + 1 \<le> MaxInt64"
    using range(2) by simp
  have "\<exists>r. for_lt (x - 2) (x + 2 + 1) (\<lambda>l s. Some (collect_cell data k l s)) (fv, c) = Some (Inr r)
          \<and> P (max (x - 2) (x + 2 + 1)) r"
    using range(1) hi init step by (rule for_lt_total [where P = P])
  then obtain r where r: "for_lt (x - 2) (x + 2 + 1) (\<lambda>l s. Some (collect_cell data k l s)) (fv, c) = Some (Inr r)"
    and pr: "P (max (x - 2) (x + 2 + 1)) r"
    by blast
  have m: "max (x - 2) (x + 2 + 1) = x + 3"
    by simp
  obtain fv' c' where rr: "r = (fv', c')"
    by (cases r)
  have e: "x + 3 - 1 = x + 2"
    by simp
  from pr have "c' = c + (x + 3 - (x - 2)) \<and> length fv' = length fv
    \<and> take (nat c') fv' = take (nat c) fv @ map (\<lambda>l. uint (f k l)) [x - 2..x + 2]"
    unfolding m P_def rr e by auto
  then show ?thesis
    using r range by (auto simp: for_le_for_lt rr)
qed

lemma collect_window_ok:
  assumes yr: "MinInt64 \<le> y - 2" "y + 2 < MaxInt64"
    and xr: "MinInt64 \<le> x - 2" "x + 2 < MaxInt64"
    and ok: "\<And>k l. y - 2 \<le> k \<Longrightarrow> k \<le> y + 2 \<Longrightarrow> x - 2 \<le> l \<Longrightarrow> l \<le> x + 2 \<Longrightarrow> data k l = Inr (f k l)"
    and len: "length fv = 25"
  shows "collect_window data 2 y x fv = Some (Inr (window_samples f y x, 25))"
proof -
  define rows where "rows = (\<lambda>hi. concat (map (\<lambda>k. map (\<lambda>l. uint (f k l)) [x - 2..x + 2]) [y - 2..hi]))"
  define P where "P = (\<lambda>k (s :: int list \<times> int).
     snd s = 5 * (k - (y - 2)) \<and> length (fst s) = 25
     \<and> take (nat (snd s)) (fst s) = rows (k - 1))"
  have init: "P (y - 2) (fv, 0)"
    by (simp add: P_def rows_def len)
  have step: "\<exists>s'. for_le (x - 2) (x + 2) (\<lambda>l s. Some (collect_cell data k l s)) s = Some (Inr s') \<and> P (k + 1) s'"
    if "y - 2 \<le> k" "k < y + 2 + 1" "P k s" for k s
  proof -
    obtain fv1 c1 where s: "s = (fv1, c1)"
      by (cases s)
    from that(3) have c1: "c1 = 5 * (k - (y - 2))" and l1: "length fv1 = 25"
      and tk: "take (nat c1) fv1 = rows (k - 1)"
      by (auto simp: P_def s)
    have r1: "0 \<le> c1" "c1 + 5 \<le> int (length fv1)" "c1 + 5 \<le> MaxInt64"
      using c1 l1 that by (simp_all add: MaxInt64_def)
    have okk: "\<And>l. x - 2 \<le> l \<Longrightarrow> l \<le> x + 2 \<Longrightarrow> data k l = Inr (f k l)"
      using ok that by simp
    from collect_row [where x = x and data = data and k = k and f = f and c = c1 and fv = fv1,
        OF xr okk r1]
    obtain fv' where run: "for_le (x - 2) (x + 2) (\<lambda>l s. Some (collect_cell data k l s)) (fv1, c1) = Some (Inr (fv', c1 + 5))"
      and l2: "length fv' = length fv1"
      and tk2: "take (nat (c1 + 5)) fv' = take (nat c1) fv1 @ map (\<lambda>l. uint (f k l)) [x - 2..x + 2]"
      by blast
    have u: "[y - 2..k + 1 - 1] = [y - 2..k - 1] @ [k]"
      using that(1) upto_rec2 [of "y - 2" k] by simp
    have "rows (k + 1 - 1) = rows (k - 1) @ map (\<lambda>l. uint (f k l)) [x - 2..x + 2]"
      unfolding rows_def u by simp
    then have "P (k + 1) (fv', c1 + 5)"
      using c1 l1 l2 tk tk2 by (simp add: P_def)
    with run show ?thesis
      unfolding s by blast
  qed
  have hi: "y + 2 + 1 \<le> MaxInt64"
    using yr(2) by simp
  have "\<exists>r. for_lt (y - 2) (y + 2 + 1) (\<lambda>k. for_le (x - 2) (x + 2) (\<lambda>l s. Some (collect_cell data k l s))) (fv, 0) = Some (Inr r)
          \<and> P (max (y - 2) (y + 2 + 1)) r"
    using yr(1) hi init step by (rule for_lt_total [where P = P])
  then obtain r where r: "for_lt (y - 2) (y + 2 + 1) (\<lambda>k. for_le (x - 2) (x + 2) (\<lambda>l s. Some (collect_cell data k l s))) (fv, 0) = Some (Inr r)"
    and pr: "P (max (y - 2) (y + 2 + 1)) r"
    by blast
  have m: "max (y - 2) (y + 2 + 1) = y + 3"
    by simp
  obtain fv' c' where rr: "r = (fv', c')"
    by (cases r)
  have e: "y + 3 - 1 = y + 2"
    by simp
  from pr have "c' = 5 * (y + 3 - (y - 2)) \<and> length fv' = 25 \<and> take (nat c') fv' = rows (y + 2)"
    unfolding m P_def rr e by auto
  then have c': "c' = 25" and l': "length fv' = 25" and tk': "take (nat c') fv' = rows (y + 2)"
    by auto
  from tk' have fv': "fv' = window_samples f y x"
    using l' by (simp add: c' rows_def window_samples_def)
  have ids: "i64 (y - 2) = y - 2" "i64 (y + 2) = y + 2" "i64 (x - 2) = x - 2" "i64 (x + 2) = x + 2"
    using yr xr by (simp_all add: i64_id')
  show ?thesis
    using r yr by (simp add: collect_window_def ids for_le_for_lt rr c' fv')
qed

lemma length_window_samples: "length (window_samples f y x) = 25"
  by (simp add: window_samples_def length_concat comp_def sum_list_triv)

lemma has_shape_nth:
  "has_shape m h w \<longleftrightarrow> int (length m) = h \<and> (\<forall>a < length m. int (length (m ! a)) = w)"
  by (simp add: has_shape_def list_all_length)

lemma has_shape_update:
  assumes "has_shape m h w" and "r < length m"
  shows "has_shape (m[r := (m ! r)[c := v]]) h w"
  using assms by (auto simp: has_shape_nth nth_list_update)

lemma has_shape_replicate:
  "0 \<le> h \<Longrightarrow> 0 \<le> w \<or> h = 0 \<Longrightarrow> has_shape (replicate (nat h) (replicate (nat w) v)) h w"
  by (auto simp: has_shape_def list_all_length)

lemma nth_update2:
  assumes "r < length m" and "c < length (m ! r)"
  shows "m[r := (m ! r)[c := v]] ! a ! b = (if a = r \<and> b = c then v else m ! a ! b)"
  using assms by (cases "a = r") (auto simp: nth_list_update)

lemma filter_pixel_total:
  assumes yr: "MinInt64 \<le> y - 2" "y + 2 < MaxInt64"
    and xr: "MinInt64 \<le> x - 2" "x + 2 < MaxInt64"
    and ok: "\<And>k l. y - 2 \<le> k \<Longrightarrow> k \<le> y + 2 \<Longrightarrow> x - 2 \<le> l \<Longrightarrow> l \<le> x + 2 \<Longrightarrow> data k l = Inr (f k l)"
    and len: "length fv = 25"
    and row: "0 \<le> y - sY" "y - sY < int (length fm)" "y - sY \<le> MaxInt64"
    and col: "0 \<le> x - sX" "x - sX < int (length (fm ! nat (y - sY)))" "x - sX \<le> MaxInt64"
  shows "filter_pixel data sY sX 2 13 y x (fv, fm) =
           Some (Inr (sort (window_samples f y x),
                fm[nat (y - sY) := (fm ! nat (y - sY))[nat (x - sX) := kernel_cell f y x]]))"
proof -
  have w: "collect_window data 2 y x fv = Some (Inr (window_samples f y x, 25))"
    using yr xr ok len by (rule collect_window_ok)
  have ids: "i64 (y - sY) = y - sY" "i64 (x - sX) = x - sX"
    using row col by (simp_all add: i64_id' MinInt64_def)
  show ?thesis
    using row col
    by (simp add: filter_pixel_def w ids index_def assign_def length_window_samples kernel_cell_def Let_def)
qed

lemma filter_pixel_partial:
  assumes "filter_pixel data sY sX radius mid y x (fv, fm) = Some (Inr (fv', fm'))"
  shows "\<exists>v. 0 \<le> i64 (y - sY) \<and> i64 (y - sY) < int (length fm) \<and> 0 \<le> i64 (x - sX)
           \<and> i64 (x - sX) < int (length (fm ! nat (i64 (y - sY))))
           \<and> fm' = fm[nat (i64 (y - sY)) := (fm ! nat (i64 (y - sY)))[nat (i64 (x - sX)) := v]]"
  using assms
  by (auto simp: filter_pixel_def index_def assign_def Let_def
      split: option.splits sum.splits prod.splits if_splits)

lemma medianFilter_unfold:
  "medianFilter sY eY sX eX data =
     (case makeMatrix (i64 (eY - sY)) (i64 (eX - sX)) of
        Inl e \<Rightarrow> Some (Inl e)
      | Inr fm \<Rightarrow>
          (case for_lt (i64 (2 + sY)) (i64 (eY - 2))
                  (\<lambda>i. for_lt (i64 (2 + sX)) (i64 (eX - 2)) (\<lambda>j. filter_pixel data sY sX 2 13 i j))
                  (replicate 25 0, fm) of
             None \<Rightarrow> None
           | Some (Inl e) \<Rightarrow> Some (Inl e)
           | Some (Inr (fv, fm')) \<Rightarrow> Some (Inr fm')))"
  by (simp add: medianFilter_def cong: sum.case_cong)

lemma away_ids:
  assumes "away_from_limits s e"
  shows "i64 (2 + s) = 2 + s" and "i64 (e - 2) = e - 2"
    and "MinInt64 \<le> 2 + s" and "e - 2 \<le> MaxInt64" and "MinInt64 \<le> s" and "e \<le> MaxInt64"
  using assms by (simp_all add: away_from_limits_def i64_id')

section \<open>The kernel: rows and grid\<close>

lemma filter_row_total:
  assumes xs: "MinInt64 \<le> sX" "eX \<le> MaxInt64"
    and yr: "MinInt64 \<le> y - 2" "y + 2 < MaxInt64"
    and ok: "\<And>k l. y - 2 \<le> k \<Longrightarrow> k \<le> y + 2 \<Longrightarrow> sX \<le> l \<Longrightarrow> l < eX \<Longrightarrow> data k l = Inr (f k l)"
    and len: "length fv = 25"
    and shape: "has_shape fm h (eX - sX)"
    and row: "0 \<le> y - sY" "y - sY < h"
    and small: "h \<le> MaxInt64" "eX - sX \<le> MaxInt64"
  shows "\<exists>fv' fm'.
           for_lt (2 + sX) (eX - 2) (\<lambda>j. filter_pixel data sY sX 2 13 y j) (fv, fm) = Some (Inr (fv', fm'))
           \<and> length fv' = 25 \<and> has_shape fm' h (eX - sX)
           \<and> (\<forall>a b. 0 \<le> a \<and> a < h \<and> 0 \<le> b \<and> b < eX - sX \<longrightarrow>
                  fm' ! nat a ! nat b =
                    (if a = y - sY \<and> 2 \<le> b \<and> b < eX - sX - 2 then kernel_cell f y (sX + b)
                     else fm ! nat a ! nat b))"
proof -
  define Q where "Q = (\<lambda>j (s :: int list \<times> matrix).
     length (fst s) = 25 \<and> has_shape (snd s) h (eX - sX)
     \<and> (\<forall>a b. 0 \<le> a \<and> a < h \<and> 0 \<le> b \<and> b < eX - sX \<longrightarrow>
            snd s ! nat a ! nat b =
              (if a = y - sY \<and> 2 \<le> b \<and> sX + b < j then kernel_cell f y (sX + b)
               else fm ! nat a ! nat b)))"
  have init: "Q (2 + sX) (fv, fm)"
    using len shape by (auto simp: Q_def)
  have step: "\<exists>s'. filter_pixel data sY sX 2 13 y j s = Some (Inr s') \<and> Q (j + 1) s'"
    if "2 + sX \<le> j" "j < eX - 2" "Q j s" for j s
  proof -
    obtain fv1 fm1 where s: "s = (fv1, fm1)"
      by (cases s)
    from that(3) have l1: "length fv1 = 25" and sh1: "has_shape fm1 h (eX - sX)"
      and cells: "\<And>a b. 0 \<le> a \<Longrightarrow> a < h \<Longrightarrow> 0 \<le> b \<Longrightarrow> b < eX - sX \<Longrightarrow>
            fm1 ! nat a ! nat b =
              (if a = y - sY \<and> 2 \<le> b \<and> sX + b < j then kernel_cell f y (sX + b)
               else fm ! nat a ! nat b)"
      by (auto simp: Q_def s)
    have okw: "\<And>k l. y - 2 \<le> k \<Longrightarrow> k \<le> y + 2 \<Longrightarrow> j - 2 \<le> l \<Longrightarrow> l \<le> j + 2 \<Longrightarrow> data k l = Inr (f k l)"
      using ok that(1,2) by simp
    have xr: "MinInt64 \<le> j - 2" "j + 2 < MaxInt64"
      using xs that(1,2) by simp_all
    have r1: "0 \<le> y - sY" "y - sY < int (length fm1)" "y - sY \<le> MaxInt64"
      using row sh1 small by (simp_all add: has_shape_nth)
    have rn: "nat (y - sY) < length fm1"
      using r1 by simp
    have c1: "0 \<le> j - sX" "j - sX < int (length (fm1 ! nat (y - sY)))" "j - sX \<le> MaxInt64"
      using that(1,2) sh1 rn small by (simp_all add: has_shape_nth)
    have cn: "nat (j - sX) < length (fm1 ! nat (y - sY))"
      using c1 by simp
    let ?fm2 = "fm1[nat (y - sY) := (fm1 ! nat (y - sY))[nat (j - sX) := kernel_cell f y j]]"
    have run: "filter_pixel data sY sX 2 13 y j s = Some (Inr (sort (window_samples f y j), ?fm2))"
      unfolding s using yr xr okw l1 r1 c1 by (rule filter_pixel_total)
    have sh2: "has_shape ?fm2 h (eX - sX)"
      using sh1 rn by (rule has_shape_update)
    have cells2: "?fm2 ! nat a ! nat b =
              (if a = y - sY \<and> 2 \<le> b \<and> sX + b < j + 1 then kernel_cell f y (sX + b)
               else fm ! nat a ! nat b)"
      if ab: "0 \<le> a" "a < h" "0 \<le> b" "b < eX - sX" for a b
    proof (cases "a = y - sY \<and> b = j - sX")
      case True
      then have "?fm2 ! nat a ! nat b = kernel_cell f y j"
        using rn cn by (simp add: nth_update2)
      moreover have "sX + b = j" "2 \<le> b"
        using True \<open>2 + sX \<le> j\<close> by simp_all
      ultimately show ?thesis
        using True by simp
    next
      case False
      then have ne: "\<not> (nat a = nat (y - sY) \<and> nat b = nat (j - sX))"
        using ab row c1 by auto
      have "?fm2 ! nat a ! nat b = fm1 ! nat a ! nat b"
        using rn cn ne by (auto simp: nth_update2)
      also have "\<dots> = (if a = y - sY \<and> 2 \<le> b \<and> sX + b < j then kernel_cell f y (sX + b)
               else fm ! nat a ! nat b)"
        using ab by (rule cells)
      also have "\<dots> = (if a = y - sY \<and> 2 \<le> b \<and> sX + b < j + 1 then kernel_cell f y (sX + b)
               else fm ! nat a ! nat b)"
        using False by auto
      finally show ?thesis .
    qed
    have "Q (j + 1) (sort (window_samples f y j), ?fm2)"
      using sh2 cells2 by (simp add: Q_def length_window_samples)
    with run show ?thesis by blast
  qed
  have lo: "MinInt64 \<le> 2 + sX" and hi: "eX - 2 \<le> MaxInt64"
    using xs by simp_all
  have "\<exists>r. for_lt (2 + sX) (eX - 2) (\<lambda>j. filter_pixel data sY sX 2 13 y j) (fv, fm) = Some (Inr r)
          \<and> Q (max (2 + sX) (eX - 2)) r"
    using lo hi init step by (rule for_lt_total [where P = Q])
  then obtain fv' fm' where r: "for_lt (2 + sX) (eX - 2) (\<lambda>j. filter_pixel data sY sX 2 13 y j) (fv, fm) = Some (Inr (fv', fm'))"
    and q: "Q (max (2 + sX) (eX - 2)) (fv', fm')"
    by auto
  have m: "2 \<le> b \<and> sX + b < max (2 + sX) (eX - 2) \<longleftrightarrow> 2 \<le> b \<and> b < eX - sX - 2" for b
    by auto
  from q have "length fv' = 25" "has_shape fm' h (eX - sX)"
    "\<forall>a b. 0 \<le> a \<and> a < h \<and> 0 \<le> b \<and> b < eX - sX \<longrightarrow>
                  fm' ! nat a ! nat b =
                    (if a = y - sY \<and> 2 \<le> b \<and> b < eX - sX - 2 then kernel_cell f y (sX + b)
                     else fm ! nat a ! nat b)"
    unfolding Q_def by (simp_all add: m del: max_less_iff_conj)
  with r show ?thesis by blast
qed

lemma medianFilter_total:
  assumes aY: "away_from_limits sY eY" and aX: "away_from_limits sX eX"
    and le: "sY \<le> eY" "sX \<le> eX"
    and alloc: "makeslice_ok 24 (eY - sY)" "makeslice_ok 1 (eX - sX)"
    and ok: "\<And>k l. sY \<le> k \<Longrightarrow> k < eY \<Longrightarrow> sX \<le> l \<Longrightarrow> l < eX \<Longrightarrow> data k l = Inr (f k l)"
  shows "\<exists>M. medianFilter sY eY sX eX data = Some (Inr M) \<and> has_shape M (eY - sY) (eX - sX)
           \<and> (\<forall>a b. 0 \<le> a \<and> a < eY - sY \<and> 0 \<le> b \<and> b < eX - sX \<longrightarrow>
                  M ! nat a ! nat b =
                    (if 2 \<le> a \<and> a < eY - sY - 2 \<and> 2 \<le> b \<and> b < eX - sX - 2
                     then kernel_cell f (sY + a) (sX + b) else 0))"
proof -
  define h where "h = eY - sY"
  define w where "w = eX - sX"
  define fm0 :: matrix where "fm0 = replicate (nat h) (replicate (nat w) 0)"
  have hw: "0 \<le> h" "0 \<le> w" "h \<le> MaxInt64" "w \<le> MaxInt64"
    using alloc makeslice_ok_int64 [of h] makeslice_ok_int64 [of w] by (simp_all add: h_def w_def)
  have ids: "i64 (eY - sY) = h" "i64 (eX - sX) = w"
    using hw by (simp_all add: h_def w_def i64_id' MinInt64_def)
  have mk: "makeMatrix (i64 (eY - sY)) (i64 (eX - sX)) = Inr fm0"
    using alloc by (simp add: ids makeMatrix_def fm0_def) (simp add: h_def w_def)
  define R where "R = (\<lambda>i (s :: int list \<times> matrix).
     length (fst s) = 25 \<and> has_shape (snd s) h (eX - sX)
     \<and> (\<forall>a b. 0 \<le> a \<and> a < h \<and> 0 \<le> b \<and> b < eX - sX \<longrightarrow>
            snd s ! nat a ! nat b =
              (if 2 \<le> a \<and> sY + a < i \<and> 2 \<le> b \<and> b < eX - sX - 2
               then kernel_cell f (sY + a) (sX + b) else 0)))"
  have sh0: "has_shape fm0 h (eX - sX)"
    unfolding fm0_def w_def [symmetric] using hw by (simp add: has_shape_replicate)
  have z0: "fm0 ! nat a ! nat b = 0" if "0 \<le> a" "a < h" "0 \<le> b" "b < eX - sX" for a b
    using that by (simp add: fm0_def w_def)
  have init: "R (2 + sY) (replicate 25 0, fm0)"
    using sh0 z0 by (auto simp: R_def)
  have step: "\<exists>s'. for_lt (2 + sX) (eX - 2) (\<lambda>j. filter_pixel data sY sX 2 13 i j) s = Some (Inr s')
                 \<and> R (i + 1) s'"
    if "2 + sY \<le> i" "i < eY - 2" "R i s" for i s
  proof -
    obtain fv1 fm1 where s: "s = (fv1, fm1)"
      by (cases s)
    from that(3) have l1: "length fv1 = 25" and sh1: "has_shape fm1 h (eX - sX)"
      and cells: "\<And>a b. 0 \<le> a \<Longrightarrow> a < h \<Longrightarrow> 0 \<le> b \<Longrightarrow> b < eX - sX \<Longrightarrow>
            fm1 ! nat a ! nat b =
              (if 2 \<le> a \<and> sY + a < i \<and> 2 \<le> b \<and> b < eX - sX - 2
               then kernel_cell f (sY + a) (sX + b) else 0)"
      by (auto simp: R_def s)
    have okr: "\<And>k l. i - 2 \<le> k \<Longrightarrow> k \<le> i + 2 \<Longrightarrow> sX \<le> l \<Longrightarrow> l < eX \<Longrightarrow> data k l = Inr (f k l)"
      using ok that(1,2) by simp
    have yr: "MinInt64 \<le> i - 2" "i + 2 < MaxInt64"
      using away_ids [OF aY] that(1,2) by simp_all
    have row: "0 \<le> i - sY" "i - sY < h"
      using that(1,2) by (simp_all add: h_def)
    have small: "h \<le> MaxInt64" "eX - sX \<le> MaxInt64"
      using hw by (simp_all add: w_def)
    from filter_row_total [where y = i and data = data and f = f and sY = sY,
        OF away_ids(5) [OF aX] away_ids(6) [OF aX] yr okr l1 sh1 row small]
    obtain fv' fm' where
      run: "for_lt (2 + sX) (eX - 2) (\<lambda>j. filter_pixel data sY sX 2 13 i j) (fv1, fm1) = Some (Inr (fv', fm'))"
      and l2: "length fv' = 25" and sh2: "has_shape fm' h (eX - sX)"
      and cells2: "\<And>a b. 0 \<le> a \<Longrightarrow> a < h \<Longrightarrow> 0 \<le> b \<Longrightarrow> b < eX - sX \<Longrightarrow>
                  fm' ! nat a ! nat b =
                    (if a = i - sY \<and> 2 \<le> b \<and> b < eX - sX - 2 then kernel_cell f i (sX + b)
                     else fm1 ! nat a ! nat b)"
      by blast
    have "fm' ! nat a ! nat b =
              (if 2 \<le> a \<and> sY + a < i + 1 \<and> 2 \<le> b \<and> b < eX - sX - 2
               then kernel_cell f (sY + a) (sX + b) else 0)"
      if ab: "0 \<le> a" "a < h" "0 \<le> b" "b < eX - sX" for a b
    proof (cases "a = i - sY")
      case True
      then have "sY + a = i" "2 \<le> a"
        using \<open>2 + sY \<le> i\<close> by simp_all
      then show ?thesis
        using cells2 [OF ab] cells [OF ab] True by simp
    next
      case False
      then have "sY + a < i + 1 \<longleftrightarrow> sY + a < i"
        by auto
      then show ?thesis
        using cells2 [OF ab] cells [OF ab] False by simp
    qed
    then have "R (i + 1) (fv', fm')"
      using l2 sh2 by (simp add: R_def)
    with run show ?thesis
      unfolding s by blast
  qed
  have "\<exists>r. for_lt (2 + sY) (eY - 2)
              (\<lambda>i. for_lt (2 + sX) (eX - 2) (\<lambda>j. filter_pixel data sY sX 2 13 i j))
              (replicate 25 0, fm0) = Some (Inr r)
          \<and> R (max (2 + sY) (eY - 2)) r"
    using away_ids(3) [OF aY] away_ids(4) [OF aY] init step by (rule for_lt_total [where P = R])
  then obtain fv' M where r: "for_lt (2 + sY) (eY - 2)
              (\<lambda>i. for_lt (2 + sX) (eX - 2) (\<lambda>j. filter_pixel data sY sX 2 13 i j))
              (replicate 25 0, fm0) = Some (Inr (fv', M))"
    and q: "R (max (2 + sY) (eY - 2)) (fv', M)"
    by auto
  have m: "2 \<le> a \<and> sY + a < max (2 + sY) (eY - 2) \<longleftrightarrow> 2 \<le> a \<and> a < eY - sY - 2" for a
    by auto
  have res: "medianFilter sY eY sX eX data = Some (Inr M)"
    by (simp add: medianFilter_unfold mk away_ids(1,2) [OF aY] away_ids(1,2) [OF aX] r)
  from q have shM: "has_shape M (eY - sY) (eX - sX)"
    by (simp add: R_def h_def)
  have "M ! nat a ! nat b =
          (if 2 \<le> a \<and> a < eY - sY - 2 \<and> 2 \<le> b \<and> b < eX - sX - 2
           then kernel_cell f (sY + a) (sX + b) else 0)"
    if ab: "0 \<le> a" "a < eY - sY" "0 \<le> b" "b < eX - sX" for a b
  proof -
    from q ab have "M ! nat a ! nat b =
          (if 2 \<le> a \<and> sY + a < max (2 + sY) (eY - 2) \<and> 2 \<le> b \<and> b < eX - sX - 2
           then kernel_cell f (sY + a) (sX + b) else 0)"
      by (simp add: R_def h_def del: max_less_iff_conj)
    also have "\<dots> = (if 2 \<le> a \<and> a < eY - sY - 2 \<and> 2 \<le> b \<and> b < eX - sX - 2
           then kernel_cell f (sY + a) (sX + b) else 0)"
      using m [of a] by (auto simp del: max_less_iff_conj)
    finally show ?thesis .
  qed
  with res shM show ?thesis by blast
qed

lemma makeMatrix_Inr:
  assumes "makeMatrix h w = Inr fm"
  shows "fm = replicate (nat h) (replicate (nat w) 0) \<and> makeslice_ok 24 h \<and> (makeslice_ok 1 w \<or> h = 0)"
  using assms by (auto simp: makeMatrix_def makeslice_ok_def split: if_splits)

lemma filter_row_shape:
  assumes range: "MinInt64 \<le> lo" "hi \<le> MaxInt64"
    and run: "for_lt lo hi (\<lambda>j. filter_pixel data sY sX r mid y j) s = Some (Inr s')"
    and inv: "has_shape (snd s) h w"
  shows "has_shape (snd s') h w"
proof -
  define P where "P = (\<lambda>(j :: int) (s :: int list \<times> matrix). has_shape (snd s) h w)"
  have init: "P lo s"
    using inv by (simp add: P_def)
  have step: "P (j + 1) s2"
    if "P j s1" "filter_pixel data sY sX r mid y j s1 = Some (Inr s2)" for j s1 s2
  proof -
    obtain fv1 fm1 where s1: "s1 = (fv1, fm1)"
      by (cases s1)
    obtain fv2 fm2 where s2: "s2 = (fv2, fm2)"
      by (cases s2)
    from that(1) have sh1: "has_shape fm1 h w"
      by (simp add: P_def s1)
    from filter_pixel_partial [OF that(2) [unfolded s1 s2]]
    obtain v where rn: "nat (i64 (y - sY)) < length fm1"
      and fm2: "fm2 = fm1[nat (i64 (y - sY)) := (fm1 ! nat (i64 (y - sY)))[nat (i64 (j - sX)) := v]]"
      by auto
    have "has_shape fm2 h w"
      unfolding fm2 using sh1 rn by (rule has_shape_update)
    then show ?thesis
      by (simp add: P_def s2)
  qed
  have "P (max lo hi) s'"
    using range run init by (rule for_lt_partial [where P = P]) (use step in blast)
  then show ?thesis
    by (simp add: P_def)
qed

lemma medianFilter_shape:
  assumes "medianFilter sY eY sX eX data = Some (Inr M)"
  shows "has_shape M (i64 (eY - sY)) (i64 (eX - sX))"
    and "makeslice_ok 24 (i64 (eY - sY))"
    and "makeslice_ok 1 (i64 (eX - sX)) \<or> i64 (eY - sY) = 0"
proof -
  define h where "h = i64 (eY - sY)"
  define w where "w = i64 (eX - sX)"
  from assms obtain fm0 fv where mk: "makeMatrix h w = Inr fm0"
    and run: "for_lt (i64 (2 + sY)) (i64 (eY - 2))
                (\<lambda>i. for_lt (i64 (2 + sX)) (i64 (eX - 2)) (\<lambda>j. filter_pixel data sY sX 2 13 i j))
                (replicate 25 0, fm0) = Some (Inr (fv, M))"
    by (auto simp: medianFilter_unfold h_def w_def split: option.splits sum.splits prod.splits)
  from makeMatrix_Inr [OF mk] have fm0: "fm0 = replicate (nat h) (replicate (nat w) 0)"
    and al: "makeslice_ok 24 h" "makeslice_ok 1 w \<or> h = 0"
    by simp_all
  have "has_shape fm0 h w"
    unfolding fm0 using al by (intro has_shape_replicate) (auto simp: makeslice_ok_def)
  define P where "P = (\<lambda>(i :: int) (s :: int list \<times> matrix). has_shape (snd s) h w)"
  have init: "P (i64 (2 + sY)) (replicate 25 0, fm0)"
    using \<open>has_shape fm0 h w\<close> by (simp add: P_def)
  have step: "P (i + 1) s2"
    if "P i s1"
      "for_lt (i64 (2 + sX)) (i64 (eX - 2)) (\<lambda>j. filter_pixel data sY sX 2 13 i j) s1 = Some (Inr s2)"
    for i s1 s2
    using filter_row_shape [OF i64_lower i64_upper that(2), of h w] that(1) by (simp add: P_def)
  have "P (max (i64 (2 + sY)) (i64 (eY - 2))) (fv, M)"
    using i64_lower i64_upper run init by (rule for_lt_partial [where P = P]) (use step in blast)
  then show "has_shape M (i64 (eY - sY)) (i64 (eX - sX))"
    by (simp add: P_def h_def w_def)
  show "makeslice_ok 24 (i64 (eY - sY))" "makeslice_ok 1 (i64 (eX - sX)) \<or> i64 (eY - sY) = 0"
    using al by (simp_all add: h_def w_def)
qed

lemma filter_row_border:
  assumes xs: "MinInt64 \<le> 2 + sX" "eX - 2 \<le> MaxInt64"
    and run: "for_lt (2 + sX) (eX - 2) (\<lambda>j. filter_pixel data sY sX r mid y j) s = Some (Inr s')"
    and inv: "has_shape (snd s) h (eX - sX) \<and> zero_border (snd s) h (eX - sX)"
    and y: "2 + sY \<le> y" "y < sY + h - 2"
    and small: "h \<le> MaxInt64" "eX - sX \<le> MaxInt64"
  shows "has_shape (snd s') h (eX - sX) \<and> zero_border (snd s') h (eX - sX)"
proof -
  define P where "P = (\<lambda>(j :: int) (s :: int list \<times> matrix).
     has_shape (snd s) h (eX - sX) \<and> zero_border (snd s) h (eX - sX))"
  have init: "P (2 + sX) s"
    using inv by (simp add: P_def)
  have rid: "i64 (y - sY) = y - sY"
    using y small by (intro i64_id') (simp_all add: MinInt64_def)
  have step: "P (j + 1) s2"
    if "2 + sX \<le> j" "j < eX - 2" "P j s1" "filter_pixel data sY sX r mid y j s1 = Some (Inr s2)"
    for j s1 s2
  proof -
    obtain fv1 fm1 where s1: "s1 = (fv1, fm1)"
      by (cases s1)
    obtain fv2 fm2 where s2: "s2 = (fv2, fm2)"
      by (cases s2)
    from that(3) have sh1: "has_shape fm1 h (eX - sX)" and zb1: "zero_border fm1 h (eX - sX)"
      by (simp_all add: P_def s1)
    have cid: "i64 (j - sX) = j - sX"
      using that(1,2) small by (intro i64_id') (simp_all add: MinInt64_def)
    from filter_pixel_partial [OF that(4) [unfolded s1 s2]]
    obtain v where rn: "nat (y - sY) < length fm1" and cn: "nat (j - sX) < length (fm1 ! nat (y - sY))"
      and fm2: "fm2 = fm1[nat (y - sY) := (fm1 ! nat (y - sY))[nat (j - sX) := v]]"
      unfolding rid cid by auto
    have sh2: "has_shape fm2 h (eX - sX)"
      unfolding fm2 using sh1 rn by (rule has_shape_update)
    have "fm2 ! nat a ! nat b = 0"
      if ab: "0 \<le> a" "a < h" "0 \<le> b" "b < eX - sX"
        and bd: "a < 2 \<or> h - 2 \<le> a \<or> b < 2 \<or> eX - sX - 2 \<le> b" for a b
    proof -
      have ne: "\<not> (nat a = nat (y - sY) \<and> nat b = nat (j - sX))"
        using ab bd y \<open>2 + sX \<le> j\<close> \<open>j < eX - 2\<close> by auto
      have "fm2 ! nat a ! nat b = fm1 ! nat a ! nat b"
        unfolding fm2 using rn cn ne by (auto simp: nth_update2)
      also have "\<dots> = 0"
        using zb1 ab bd by (simp add: zero_border_def)
      finally show ?thesis .
    qed
    then have "zero_border fm2 h (eX - sX)"
      by (simp add: zero_border_def)
    with sh2 show ?thesis
      by (simp add: P_def s2)
  qed
  have "P (max (2 + sX) (eX - 2)) s'"
    using xs run init step by (rule for_lt_partial [where P = P])
  then show ?thesis
    by (simp add: P_def)
qed

lemma medianFilter_border:
  assumes int: "is_int64 sY" "is_int64 eY" "is_int64 sX" "is_int64 eX"
    and big: "5 \<le> eY - sY" "5 \<le> eX - sX"
    and run: "medianFilter sY eY sX eX data = Some (Inr M)"
  shows "has_shape M (eY - sY) (eX - sX) \<and> zero_border M (eY - sY) (eX - sX)"
proof -
  define h where "h = eY - sY"
  define w where "w = eX - sX"
  from medianFilter_shape [OF run]
  have al: "makeslice_ok 24 (i64 (eY - sY))" "makeslice_ok 1 (i64 (eX - sX)) \<or> i64 (eY - sY) = 0"
    by simp_all
  have hid: "i64 (eY - sY) = h"
    unfolding h_def using int(1,2) big(1) al(1) by (intro i64_extent) (simp_all add: makeslice_ok_def)
  have hpos: "h \<noteq> 0"
    using big(1) by (simp add: h_def)
  have wid: "i64 (eX - sX) = w"
    unfolding w_def using int(3,4) big(2) al(2) hid hpos by (intro i64_extent) (simp_all add: makeslice_ok_def)
  have small: "h \<le> MaxInt64" "eX - sX \<le> MaxInt64"
    using i64_upper [of "eY - sY"] i64_upper [of "eX - sX"] hid wid by (simp_all add: w_def)
  have aY: "away_from_limits sY eY" and aX: "away_from_limits sX eX"
    using int big by (simp_all add: away_from_limits_def is_int64_def)
  from run obtain fm0 fv where mk: "makeMatrix h w = Inr fm0"
    and loop: "for_lt (2 + sY) (eY - 2)
                (\<lambda>i. for_lt (2 + sX) (eX - 2) (\<lambda>j. filter_pixel data sY sX 2 13 i j))
                (replicate 25 0, fm0) = Some (Inr (fv, M))"
    by (auto simp: medianFilter_unfold hid wid away_ids(1,2) [OF aY] away_ids(1,2) [OF aX]
        split: option.splits sum.splits prod.splits)
  from makeMatrix_Inr [OF mk] have fm0: "fm0 = replicate (nat h) (replicate (nat w) 0)"
    by simp
  define P where "P = (\<lambda>(i :: int) (s :: int list \<times> matrix).
     has_shape (snd s) h (eX - sX) \<and> zero_border (snd s) h (eX - sX))"
  have "has_shape fm0 h (eX - sX)"
    unfolding fm0 w_def [symmetric] using big by (intro has_shape_replicate) (simp_all add: h_def w_def)
  moreover have "zero_border fm0 h (eX - sX)"
    by (simp add: zero_border_def fm0 w_def)
  ultimately have init: "P (2 + sY) (replicate 25 0, fm0)"
    by (simp add: P_def)
  have step: "P (i + 1) s2"
    if "2 + sY \<le> i" "i < eY - 2" "P i s1"
      "for_lt (2 + sX) (eX - 2) (\<lambda>j. filter_pixel data sY sX 2 13 i j) s1 = Some (Inr s2)"
    for i s1 s2
  proof -
    have "has_shape (snd s2) h (eX - sX) \<and> zero_border (snd s2) h (eX - sX)"
    proof (rule filter_row_border [OF away_ids(3) [OF aX] away_ids(4) [OF aX] that(4)])
      show "has_shape (snd s1) h (eX - sX) \<and> zero_border (snd s1) h (eX - sX)"
        using that(3) by (simp add: P_def)
      show "2 + sY \<le> i"
        by (rule that(1))
      show "i < sY + h - 2"
        using that(2) by (simp add: h_def)
      show "h \<le> MaxInt64" "eX - sX \<le> MaxInt64"
        by (rule small)+
    qed
    then show ?thesis
      by (simp add: P_def)
  qed
  have "P (max (2 + sY) (eY - 2)) (fv, M)"
    using away_ids(3) [OF aY] away_ids(4) [OF aY] loop init step by (rule for_lt_partial [where P = P])
  then show ?thesis
    by (simp add: P_def h_def)
qed

lemma medianFilter_small:
  assumes aY: "away_from_limits sY eY" and aX: "away_from_limits sX eX"
    and ext: "0 \<le> eY - sY" "0 \<le> eX - sX"
    and small: "eY - sY < 5 \<or> eX - sX < 5"
    and alloc: "makeslice_ok 24 (eY - sY)" "makeslice_ok 1 (eX - sX)"
  shows "medianFilter sY eY sX eX data = Some (Inr (replicate (nat (eY - sY)) (replicate (nat (eX - sX)) 0)))"
proof -
  have ids: "i64 (eY - sY) = eY - sY" "i64 (eX - sX) = eX - sX"
    using makeslice_ok_int64 [of "eY - sY"] makeslice_ok_int64 [of "eX - sX"] alloc
    by (simp_all add: i64_id' MinInt64_def)
  have mk: "makeMatrix (eY - sY) (eX - sX) = Inr (replicate (nat (eY - sY)) (replicate (nat (eX - sX)) 0))"
    using alloc by (simp add: makeMatrix_def)
  have "for_lt (2 + sY) (eY - 2)
          (\<lambda>i. for_lt (2 + sX) (eX - 2) (\<lambda>j. filter_pixel data sY sX 2 13 i j)) s = Some (Inr s)" for s
  proof (cases "eY - sY < 5")
    case True
    then show ?thesis
      by (simp add: for_lt_stop)
  next
    case False
    with small have "eX - 2 \<le> 2 + sX"
      by simp
    then have "for_lt (2 + sX) (eX - 2) (\<lambda>j. filter_pixel data sY sX 2 13 i j) s = Some (Inr s)" for i
      by (rule for_lt_stop)
    then show ?thesis
      by (intro for_lt_skip [OF away_ids(3) [OF aY] away_ids(4) [OF aY]])
  qed
  then show ?thesis
    by (simp add: medianFilter_unfold ids mk away_ids(1,2) [OF aY] away_ids(1,2) [OF aX])
qed

lemma medianFilter_empty: "medianFilter 0 0 0 w data = Some (Inr [])"
proof -
  have ids: "i64 0 = 0" "i64 2 = 2" "i64 (- 2) = - 2"
    by (simp_all add: i64_id' MinInt64_def MaxInt64_def)
  have mk: "makeMatrix 0 (i64 w) = Inr []"
    by (simp add: makeMatrix_def makeslice_ok_def maxAlloc_def)
  show ?thesis
    by (simp add: medianFilter_unfold ids mk for_lt_stop)
qed

lemma collect_window_cong:
  assumes yr: "MinInt64 \<le> y - 2" "y + 2 < MaxInt64"
    and xr: "MinInt64 \<le> x - 2" "x + 2 < MaxInt64"
    and eq: "\<And>k l. y - 2 \<le> k \<Longrightarrow> k \<le> y + 2 \<Longrightarrow> x - 2 \<le> l \<Longrightarrow> l \<le> x + 2 \<Longrightarrow> data k l = data' k l"
  shows "collect_window data 2 y x fv = collect_window data' 2 y x fv"
proof -
  have ids: "i64 (y - 2) = y - 2" "i64 (y + 2) = y + 2" "i64 (x - 2) = x - 2" "i64 (x + 2) = x + 2"
    using yr xr by (simp_all add: i64_id')
  have cell: "collect_cell data k l = collect_cell data' k l"
    if "y - 2 \<le> k" "k \<le> y + 2" "x - 2 \<le> l" "l \<le> x + 2" for k l
    using eq [OF that] by (simp add: collect_cell_def)
  have hx: "x + 2 + 1 \<le> MaxInt64" and hy: "y + 2 + 1 \<le> MaxInt64"
    using xr yr by simp_all
  have row: "for_lt (x - 2) (x + 2 + 1) (\<lambda>l s. Some (collect_cell data k l s)) t
           = for_lt (x - 2) (x + 2 + 1) (\<lambda>l s. Some (collect_cell data' k l s)) t"
    if "y - 2 \<le> k" "k \<le> y + 2" for k t
    using xr(1) hx by (rule for_lt_cong) (use cell that in simp)
  have "for_lt (y - 2) (y + 2 + 1) (\<lambda>k. for_lt (x - 2) (x + 2 + 1) (\<lambda>l s. Some (collect_cell data k l s))) (fv, 0)
      = for_lt (y - 2) (y + 2 + 1) (\<lambda>k. for_lt (x - 2) (x + 2 + 1) (\<lambda>l s. Some (collect_cell data' k l s))) (fv, 0)"
    using yr(1) hy by (rule for_lt_cong) (use row in simp)
  then show ?thesis
    by (simp add: collect_window_def ids for_le_for_lt_fun [OF yr] for_le_for_lt_fun [OF xr])
qed

lemma medianFilter_cong:
  assumes aY: "away_from_limits sY eY" and aX: "away_from_limits sX eX"
    and eq: "\<And>k l. sY \<le> k \<Longrightarrow> k < eY \<Longrightarrow> sX \<le> l \<Longrightarrow> l < eX \<Longrightarrow> data k l = data' k l"
  shows "medianFilter sY eY sX eX data = medianFilter sY eY sX eX data'"
proof -
  have px: "filter_pixel data sY sX 2 13 i j = filter_pixel data' sY sX 2 13 i j"
    if "2 + sY \<le> i" "i < eY - 2" "2 + sX \<le> j" "j < eX - 2" for i j
  proof -
    have yr: "MinInt64 \<le> i - 2" "i + 2 < MaxInt64"
      using away_ids [OF aY] that(1,2) by simp_all
    have xr: "MinInt64 \<le> j - 2" "j + 2 < MaxInt64"
      using away_ids [OF aX] that(3,4) by simp_all
    have "collect_window data 2 i j fv = collect_window data' 2 i j fv" for fv
      using yr xr by (rule collect_window_cong) (use eq that in simp)
    then show ?thesis
      by (simp add: filter_pixel_def fun_eq_iff)
  qed
  have row: "for_lt (2 + sX) (eX - 2) (\<lambda>j. filter_pixel data sY sX 2 13 i j) t
           = for_lt (2 + sX) (eX - 2) (\<lambda>j. filter_pixel data' sY sX 2 13 i j) t"
    if "2 + sY \<le> i" "i < eY - 2" for i t
    using away_ids(3,4) [OF aX] by (rule for_lt_cong) (use px that in simp)
  have "for_lt (2 + sY) (eY - 2) (\<lambda>i. for_lt (2 + sX) (eX - 2) (\<lambda>j. filter_pixel data sY sX 2 13 i j)) t
      = for_lt (2 + sY) (eY - 2) (\<lambda>i. for_lt (2 + sX) (eX - 2) (\<lambda>j. filter_pixel data' sY sX 2 13 i j)) t"
    for t
    using away_ids(3,4) [OF aY] by (rule for_lt_cong) (use row in simp)
  then show ?thesis
    by (simp add: medianFilter_unfold away_ids(1,2) [OF aY] away_ids(1,2) [OF aX] cong: sum.case_cong)
qed

lemma makeImmutableMatrix_ok:
  assumes "has_shape m H W" and "0 \<le> k" "k < H" "0 \<le> l" "l < W"
  shows "makeImmutableMatrix m k l = Inr (m ! nat k ! nat l)"
  using assms by (auto simp: makeImmutableMatrix_def index_def has_shape_nth)

lemma kernel_cell_const: "kernel_cell (\<lambda>k l. c) y x = c"
proof -
  let ?xs = "window_samples (\<lambda>k l. c) y x"
  have "13 < length (sort ?xs)"
    by (simp add: length_window_samples)
  then have "sort ?xs ! 13 \<in> set (sort ?xs)"
    by (rule nth_mem)
  then have "sort ?xs ! 13 = uint c"
    by (auto simp: window_samples_def)
  then show ?thesis
    by (simp add: kernel_cell_def)
qed

section \<open>Which sample the kernel takes\<close>

text \<open>
  Claim C1 says that the output is the 13th smallest of the 25 samples of the window, index
  12 of the sorted buffer. The kernel reads index \<open>midPoint = (5*5 + 1) / 2 = 13\<close>, the 14th
  smallest (\<open>medianFilter_total\<close> and \<open>kernel_cell\<close> above, for every window). On the 5 by 5
  image of the samples 0 to 24 the only window is the whole image: the kernel returns 13
  at its centre, and the 13th smallest sample is 12.
\<close>

theorem kernel_takes_index_13:
  "medianFilter 0 5 0 5 (makeImmutableMatrix grid5x5) = Some (Inr
     [[0, 0, 0, 0, 0],
      [0, 0, 0, 0, 0],
      [0, 0, 13, 0, 0],
      [0, 0, 0, 0, 0],
      [0, 0, 0, 0, 0]])
   \<and> sort (map uint (concat grid5x5)) ! 12 = 12
   \<and> sort (map uint (concat grid5x5)) ! 13 = 13"
  unfolding grid5x5_def by code_simp

section \<open>The border of a filtered region\<close>

text \<open>
  Claim C6. For a region of height and width at least 5, whose bounds are values of Go's
  \<^verbatim>\<open>int\<close>, every grid the kernel returns has the region's dimensions and is 0 at every cell
  whose row is less than 2 away from the top or bottom bound, or whose column is less than
  2 away from the left or right bound. Cells are addressed relative to the region: \<open>a\<close> is
  the row, \<open>b\<close> the column.
\<close>

theorem kernel_border_zero:
  assumes "is_int64 sY" and "is_int64 eY" and "is_int64 sX" and "is_int64 eX"
    and "5 \<le> eY - sY" and "5 \<le> eX - sX"
    and "medianFilter sY eY sX eX data = Some (Inr M)"
    and "0 \<le> a" "a < eY - sY" "0 \<le> b" "b < eX - sX"
    and "a < 2 \<or> eY - sY - 2 \<le> a \<or> b < 2 \<or> eX - sX - 2 \<le> b"
  shows "int (length M) = eY - sY \<and> int (length (M ! nat a)) = eX - sX \<and> M ! nat a ! nat b = 0"
proof -
  from medianFilter_border [OF assms(1-7)]
  have sh: "has_shape M (eY - sY) (eX - sX)" and zb: "zero_border M (eY - sY) (eX - sX)"
    by simp_all
  from sh have len: "int (length M) = eY - sY"
    by (simp add: has_shape_nth)
  with assms(8,9) have "nat a < length M"
    by simp
  with sh have "int (length (M ! nat a)) = eX - sX"
    by (simp add: has_shape_nth)
  moreover note len
  moreover from zb assms(8-12) have "M ! nat a ! nat b = 0"
    by (simp add: zero_border_def)
  ultimately show ?thesis by simp
qed

theorem kernel_border_zero_witness:
  "is_int64 0 \<and> is_int64 5 \<and> (5::int) \<le> 5 - 0
   \<and> medianFilter 0 5 0 5 (makeImmutableMatrix grid5x5) = Some (Inr
     [[0, 0, 0, 0, 0],
      [0, 0, 0, 0, 0],
      [0, 0, 13, 0, 0],
      [0, 0, 0, 0, 0],
      [0, 0, 0, 0, 0]])
   \<and> [[0, 0, 0, 0, 0],
      [0, 0, 0, 0, 0],
      [0, 0, 13, 0, 0],
      [0, 0, 0, 0, 0],
      [0, 0, 0, 0, 0 :: u8]] ! nat 2 ! nat 3 = 0"
proof -
  have run: "medianFilter 0 5 0 5 (makeImmutableMatrix grid5x5) = Some (Inr
     [[0, 0, 0, 0, 0],
      [0, 0, 0, 0, 0],
      [0, 0, 13, 0, 0],
      [0, 0, 0, 0, 0],
      [0, 0, 0, 0, 0]])"
    unfolding grid5x5_def by code_simp
  have int: "is_int64 0" "is_int64 5"
    by (simp_all add: is_int64_def MinInt64_def MaxInt64_def)
  from kernel_border_zero [where sY = 0 and eY = 5 and sX = 0 and eX = 5 and a = 2 and b = 3,
      OF int(1) int(2) int(1) int(2) _ _ run]
  show ?thesis
    using run int by simp
qed

section \<open>Flat images\<close>

text \<open>
  Claim C7. On the view of an \<open>h\<close> by \<open>w\<close> grid of one value \<open>c\<close>, with \<open>h\<close> and \<open>w\<close> at least 5
  (a grid that \<^verbatim>\<open>makeMatrix\<close> can make), the kernel over the whole grid returns a grid that
  holds \<open>c\<close> at every cell at least 2 away from every edge.
\<close>

theorem flat_grid_interior:
  assumes "5 \<le> h" and "5 \<le> w"
    and "makeslice_ok 24 h" and "makeslice_ok 1 w"
  shows "\<exists>M. medianFilter 0 h 0 w (makeImmutableMatrix (replicate (nat h) (replicate (nat w) c))) = Some (Inr M)
           \<and> (\<forall>a b. 2 \<le> a \<and> a < h - 2 \<and> 2 \<le> b \<and> b < w - 2 \<longrightarrow> M ! nat a ! nat b = c)"
proof -
  let ?g = "replicate (nat h) (replicate (nat w) c)"
  have sh: "has_shape ?g h w"
    using assms by (simp add: has_shape_replicate)
  have ok: "makeImmutableMatrix ?g k l = Inr c" if "0 \<le> k" "k < h" "0 \<le> l" "l < w" for k l
    using makeImmutableMatrix_ok [OF sh that] that by simp
  have aY: "away_from_limits 0 h" and aX: "away_from_limits 0 w"
    using assms makeslice_ok_int64 [of h] makeslice_ok_int64 [of w]
    by (simp_all add: away_from_limits_def MinInt64_def MaxInt64_def)
  from medianFilter_total [where sY = 0 and eY = h and sX = 0 and eX = w
      and data = "makeImmutableMatrix ?g" and f = "\<lambda>k l. c", OF aY aX _ _ _ _ ok] assms
  obtain M where run: "medianFilter 0 h 0 w (makeImmutableMatrix ?g) = Some (Inr M)"
    and cells: "\<forall>a b. 0 \<le> a \<and> a < h - 0 \<and> 0 \<le> b \<and> b < w - 0 \<longrightarrow>
                  M ! nat a ! nat b =
                    (if 2 \<le> a \<and> a < h - 0 - 2 \<and> 2 \<le> b \<and> b < w - 0 - 2
                     then kernel_cell (\<lambda>k l. c) (0 + a) (0 + b) else 0)"
    by auto
  have "M ! nat a ! nat b = c" if "2 \<le> a" "a < h - 2" "2 \<le> b" "b < w - 2" for a b
    using cells [rule_format, of a b] that by (simp add: kernel_cell_const)
  with run show ?thesis by blast
qed

theorem flat_grid_interior_witness:
  "(5::int) \<le> 6 \<and> (5::int) \<le> 7 \<and> makeslice_ok 24 6 \<and> makeslice_ok 1 7
   \<and> (\<exists>M. medianFilter 0 6 0 7 (makeImmutableMatrix (replicate 6 (replicate 7 200))) = Some (Inr M)
          \<and> M ! 2 ! 2 = 200 \<and> M ! 3 ! 4 = 200)"
proof -
  have al: "makeslice_ok 24 6" "makeslice_ok 1 7"
    by (simp_all add: makeslice_ok_def maxAlloc_def)
  from flat_grid_interior [where h = 6 and w = 7 and c = 200, OF _ _ al]
  obtain M where run: "medianFilter 0 6 0 7 (makeImmutableMatrix (replicate 6 (replicate 7 200))) = Some (Inr M)"
    and cells: "\<forall>a b. 2 \<le> a \<and> a < 6 - 2 \<and> 2 \<le> b \<and> b < 7 - 2 \<longrightarrow> M ! nat a ! nat b = 200"
    by auto
  from cells [rule_format, of 2 2] cells [rule_format, of 3 4]
  have "M ! 2 ! 2 = 200" "M ! 3 ! 4 = 200"
    by simp_all
  with run al show ?thesis by auto
qed

section \<open>Regions too small for a window\<close>

text \<open>
  Claim C9, as amended. For a region whose bounds are at least 2 away from the limits of
  \<^verbatim>\<open>int\<close>, whose height and width are both non-negative and within the limit of \<^verbatim>\<open>make\<close>,
  and of which at least one is less than 5, the kernel returns the all-zero grid of the
  region's dimensions, whatever the source is: also for a source that panics on every
  read, so no read happens.
\<close>

theorem small_region_zero:
  assumes "away_from_limits sY eY" and "away_from_limits sX eX"
    and "0 \<le> eY - sY" and "0 \<le> eX - sX"
    and "eY - sY < 5 \<or> eX - sX < 5"
    and "makeslice_ok 24 (eY - sY)" and "makeslice_ok 1 (eX - sX)"
  shows "medianFilter sY eY sX eX data = Some (Inr (replicate (nat (eY - sY)) (replicate (nat (eX - sX)) 0)))"
  using assms by (rule medianFilter_small)

text \<open>
  The claim as stated fails at the upper limit of \<^verbatim>\<open>int\<close>: for the rows
  \<open>[MaxInt64 - 1, MaxInt64)\<close>, of height 1, and the columns \<open>[0, 5)\<close> the sum \<open>radius + startY\<close>
  wraps around to \<open>MinInt64\<close>, the loop over the rows runs (its windows are empty, so
  nothing is read), and the kernel panics on row index 2 of its grid of one row.
\<close>

theorem small_region_at_limit_counterexample:
  "(0::int) \<le> MaxInt64 - (MaxInt64 - 1) \<and> MaxInt64 - (MaxInt64 - 1) < 5 \<and> (0::int) \<le> 5 - 0
   \<and> medianFilter (MaxInt64 - 1) MaxInt64 0 5 (\<lambda>k l. Inl OtherPanic) = Some (Inl IndexOutOfRange)"
  by code_simp

theorem small_region_zero_witness:
  "away_from_limits 3 7 \<and> away_from_limits 1 9
   \<and> (0::int) \<le> 7 - 3 \<and> (0::int) \<le> 9 - 1 \<and> ((7::int) - 3 < 5 \<or> (9::int) - 1 < 5)
   \<and> makeslice_ok 24 (7 - 3) \<and> makeslice_ok 1 (9 - 1)
   \<and> medianFilter 3 7 1 9 (\<lambda>k l. Inl OtherPanic) = Some (Inr (replicate 4 (replicate 8 0)))"
proof -
  have a: "away_from_limits 3 7" "away_from_limits 1 9"
    by (simp_all add: away_from_limits_def MinInt64_def MaxInt64_def)
  have al: "makeslice_ok 24 (7 - 3)" "makeslice_ok 1 (9 - 1)"
    by (simp_all add: makeslice_ok_def maxAlloc_def)
  from small_region_zero [where sY = 3 and eY = 7 and sX = 1 and eX = 9
      and data = "\<lambda>k l. Inl OtherPanic", OF a _ _ _ al]
  show ?thesis
    using a al by simp
qed

section \<open>The reads of the kernel\<close>

text \<open>
  Claim C10, as amended. For a region with \<open>sY \<le> eY\<close> and \<open>sX \<le> eX\<close> whose bounds are at least
  2 away from the limits of \<^verbatim>\<open>int\<close>, the kernel reads the source only inside the region: a
  source that panics on every read outside the region gives the same outcome as the source
  itself; and if the extents are within the limit of \<^verbatim>\<open>make\<close> and every read inside the
  region succeeds, the kernel returns a grid. Hence on the view of an \<open>H\<close> by \<open>W\<close> grid that
  \<^verbatim>\<open>makeMatrix\<close> can make, with bounds inside the grid, the kernel returns a grid: no read is
  out of range.
\<close>

theorem kernel_reads_in_region:
  assumes "away_from_limits sY eY" and "away_from_limits sX eX"
    and "sY \<le> eY" and "sX \<le> eX"
  shows "medianFilter sY eY sX eX
           (\<lambda>k l. if sY \<le> k \<and> k < eY \<and> sX \<le> l \<and> l < eX then data k l else Inl OtherPanic)
           = medianFilter sY eY sX eX data
         \<and> (makeslice_ok 24 (eY - sY) \<and> makeslice_ok 1 (eX - sX)
              \<and> (\<forall>k l. sY \<le> k \<and> k < eY \<and> sX \<le> l \<and> l < eX \<longrightarrow> (\<exists>v. data k l = Inr v)) \<longrightarrow>
              (\<exists>M. medianFilter sY eY sX eX data = Some (Inr M)))
         \<and> (has_shape m H W \<and> makeslice_ok 24 H \<and> makeslice_ok 1 W
              \<and> 0 \<le> sY \<and> eY \<le> H \<and> 0 \<le> sX \<and> eX \<le> W \<longrightarrow>
              (\<exists>M. medianFilter sY eY sX eX (makeImmutableMatrix m) = Some (Inr M)))"
proof (intro conjI impI)
  show "medianFilter sY eY sX eX
           (\<lambda>k l. if sY \<le> k \<and> k < eY \<and> sX \<le> l \<and> l < eX then data k l else Inl OtherPanic)
           = medianFilter sY eY sX eX data"
    using assms(1,2) by (rule medianFilter_cong) simp
next
  assume r: "makeslice_ok 24 (eY - sY) \<and> makeslice_ok 1 (eX - sX)
              \<and> (\<forall>k l. sY \<le> k \<and> k < eY \<and> sX \<le> l \<and> l < eX \<longrightarrow> (\<exists>v. data k l = Inr v))"
  define f where "f = (\<lambda>k l. case data k l of Inr v \<Rightarrow> v | Inl e \<Rightarrow> 0)"
  have ok: "data k l = Inr (f k l)" if "sY \<le> k" "k < eY" "sX \<le> l" "l < eX" for k l
  proof -
    from r that obtain v where "data k l = Inr v"
      by blast
    then show ?thesis
      by (simp add: f_def)
  qed
  from r have al: "makeslice_ok 24 (eY - sY)" "makeslice_ok 1 (eX - sX)"
    by simp_all
  from medianFilter_total [where data = data and f = f, OF assms al ok]
  show "\<exists>M. medianFilter sY eY sX eX data = Some (Inr M)"
    by blast
next
  assume a: "has_shape m H W \<and> makeslice_ok 24 H \<and> makeslice_ok 1 W
              \<and> 0 \<le> sY \<and> eY \<le> H \<and> 0 \<le> sX \<and> eX \<le> W"
  have ok: "makeImmutableMatrix m k l = Inr (m ! nat k ! nat l)"
    if "sY \<le> k" "k < eY" "sX \<le> l" "l < eX" for k l
    by (rule makeImmutableMatrix_ok [of m H W]) (use a that in auto)
  have al: "makeslice_ok 24 (eY - sY)" "makeslice_ok 1 (eX - sX)"
    using a assms(3,4) by (auto simp: makeslice_ok_def)
  from medianFilter_total [where data = "makeImmutableMatrix m" and f = "\<lambda>k l. m ! nat k ! nat l",
      OF assms al ok]
  show "\<exists>M. medianFilter sY eY sX eX (makeImmutableMatrix m) = Some (Inr M)"
    by blast
qed

text \<open>
  The claim as stated fails at the lower limit of \<^verbatim>\<open>int\<close>: for the rows
  \<open>[MinInt64, MinInt64 + 1)\<close> and the columns \<open>[0, 5)\<close> the difference \<open>endY - radius\<close> wraps
  around to \<open>MaxInt64\<close>, and the first window reads the rows \<open>MinInt64\<close> to \<open>MinInt64 + 4\<close>. With
  a source that panics only outside the region, the kernel ends with that panic.
\<close>

theorem read_outside_region_counterexample:
  "MinInt64 \<le> MinInt64 + 1 \<and> (0::int) \<le> 5
   \<and> medianFilter MinInt64 (MinInt64 + 1) 0 5
        (\<lambda>k l. if MinInt64 \<le> k \<and> k < MinInt64 + 1 \<and> 0 \<le> l \<and> l < 5 then Inr 7 else Inl OtherPanic)
      = Some (Inl OtherPanic)"
  by code_simp

theorem kernel_reads_in_region_witness:
  "away_from_limits 1 6 \<and> away_from_limits 2 8 \<and> (1::int) \<le> 6 \<and> (2::int) \<le> 8
   \<and> medianFilter 1 6 2 8
         (\<lambda>k l. if 1 \<le> k \<and> k < 6 \<and> 2 \<le> l \<and> l < 8 then Inr 9 else Inl OtherPanic)
       = medianFilter 1 6 2 8 (\<lambda>k l. Inr 9)
   \<and> (\<exists>M. medianFilter 1 6 2 8
              (\<lambda>k l. if 1 \<le> k \<and> k < 6 \<and> 2 \<le> l \<and> l < 8 then Inr 9 else Inl OtherPanic)
            = Some (Inr M))
   \<and> has_shape grid5x5 5 5
   \<and> (\<exists>M. medianFilter 0 5 1 4 (makeImmutableMatrix grid5x5) = Some (Inr M))"
proof -
  have sh: "has_shape grid5x5 5 5"
    by (simp add: has_shape_def grid5x5_def)
  have a: "away_from_limits 1 6" "away_from_limits 2 8" "away_from_limits 0 5" "away_from_limits 1 4"
    by (simp_all add: away_from_limits_def MinInt64_def MaxInt64_def)
  have al: "makeslice_ok 24 5" "makeslice_ok 1 6" "makeslice_ok 1 5"
    by (simp_all add: makeslice_ok_def maxAlloc_def)
  show ?thesis
    using sh a al
      kernel_reads_in_region [where sY = 1 and eY = 6 and sX = 2 and eX = 8
        and data = "\<lambda>k l. Inr 9", OF a(1) a(2)]
      kernel_reads_in_region [where sY = 1 and eY = 6 and sX = 2 and eX = 8
        and data = "\<lambda>k l. if 1 \<le> k \<and> k < 6 \<and> 2 \<le> l \<and> l < 8 then Inr 9 else Inl OtherPanic",
        OF a(1) a(2)]
      kernel_reads_in_region [where sY = 0 and eY = 5 and sX = 1 and eX = 4
        and m = grid5x5 and H = 5 and W = 5, OF a(3) a(4)]
    by simp
qed

section \<open>The bands of the coordinator\<close>

lemma quot_nonneg: "0 \<le> a \<Longrightarrow> 0 < b \<Longrightarrow> quot a b = a div b"
  by (cases "a = 0") (simp_all add: quot_def)

lemma length_bands: "length (bands h t) = nat t"
  by (simp add: bands_def)

lemma nth_bands:
  assumes "0 \<le> i" and "i < t"
  shows "bands h t ! nat i = band h t (quot h t) i"
proof -
  have "nat i < length [0..t - 1]"
    using assms by simp
  moreover have "[0..t - 1] ! nat i = i"
    using assms by (simp add: nth_upto)
  ultimately show ?thesis
    by (simp add: bands_def)
qed

lemma band_formula:
  assumes "1 \<le> t" and "t \<le> h" and "0 \<le> i" and "i < t"
  shows "bands h t ! nat i = (i * (h div t), if i = t - 1 then h else (i + 1) * (h div t))"
  using assms by (simp add: nth_bands band_def quot_nonneg Let_def)

lemma band_size_pos:
  assumes "1 \<le> t" and "t \<le> (h::int)"
  shows "1 \<le> h div t"
  using assms pos_imp_zdiv_pos_iff [of t h] by simp

lemma bands_below_height:
  assumes "1 \<le> t" and "t \<le> (h::int)"
  shows "(t - 1) * (h div t) < h"
proof -
  have "t * (h div t) \<le> h"
    using assms mult_div_mod_eq [of t h] pos_mod_sign [of t h] by linarith
  moreover have "(t - 1) * (h div t) = t * (h div t) - h div t"
    by (simp add: algebra_simps)
  ultimately show ?thesis
    using band_size_pos [OF assms] by linarith
qed

lemma band_nonempty:
  assumes "1 \<le> t" and "t \<le> h" and "0 \<le> i" and "i < t"
  shows "fst (bands h t ! nat i) < snd (bands h t ! nat i)"
proof (cases "i = t - 1")
  case True
  then show ?thesis
    using assms bands_below_height [of t h] by (simp add: band_formula)
next
  case False
  have "i * (h div t) < i * (h div t) + h div t"
    using band_size_pos [OF assms(1,2)] by linarith
  then show ?thesis
    using assms False by (simp add: band_formula algebra_simps)
qed

lemma bands_ordered:
  assumes "1 \<le> t" and "t \<le> h" and "0 \<le> i" and "i < j" and "j < t"
  shows "snd (bands h t ! nat i) \<le> fst (bands h t ! nat j)"
proof -
  have "(i + 1) * (h div t) \<le> j * (h div t)"
    using assms(4) band_size_pos [OF assms(1,2)] by (intro mult_right_mono) simp_all
  then show ?thesis
    using assms by (simp add: band_formula)
qed

lemma band_exists:
  assumes "1 \<le> t" and "t \<le> h" and "0 \<le> y" and "y < h"
  shows "\<exists>i. 0 \<le> i \<and> i < t \<and> fst (bands h t ! nat i) \<le> y \<and> y < snd (bands h t ! nat i)"
proof -
  define ps where "ps = h div t"
  have ps: "1 \<le> ps"
    unfolding ps_def by (rule band_size_pos [OF assms(1,2)])
  have dm: "ps * (y div ps) + y mod ps = y"
    by simp
  have md: "0 \<le> y mod ps" "y mod ps < ps"
    using ps by simp_all
  have "ps * (y div ps) \<le> y"
    using dm md(1) by linarith
  then have lo: "(y div ps) * ps \<le> y"
    by (simp add: mult.commute)
  have "y < ps * (y div ps) + ps"
    using dm md(2) by linarith
  then have hi: "y < (y div ps + 1) * ps"
    by (simp add: algebra_simps)
  have q0: "0 \<le> y div ps"
    using ps assms(3) by (simp add: pos_imp_zdiv_nonneg_iff)
  show ?thesis
  proof (cases "y div ps < t - 1")
    case True
    then have "bands h t ! nat (y div ps) = ((y div ps) * ps, (y div ps + 1) * ps)"
      using assms(1,2) q0 by (simp add: band_formula ps_def)
    then show ?thesis
      using True q0 lo hi by (intro exI [of _ "y div ps"]) simp
  next
    case False
    then have "(t - 1) * ps \<le> (y div ps) * ps"
      using ps by (intro mult_right_mono) simp_all
    moreover have "bands h t ! nat (t - 1) = ((t - 1) * ps, h)"
      using assms(1,2) by (simp add: band_formula ps_def)
    ultimately show ?thesis
      using assms lo by (intro exI [of _ "t - 1"]) simp
  qed
qed

lemma band_unique:
  assumes "1 \<le> t" and "t \<le> h"
    and i: "0 \<le> i" "i < t" "fst (bands h t ! nat i) \<le> y" "y < snd (bands h t ! nat i)"
    and j: "0 \<le> j" "j < t" "fst (bands h t ! nat j) \<le> y" "y < snd (bands h t ! nat j)"
  shows "i = j"
proof (rule ccontr)
  assume "i \<noteq> j"
  then consider "i < j" | "j < i"
    by linarith
  then show False
  proof cases
    case 1
    from bands_ordered [OF assms(1,2) i(1) 1 j(2)] i(4) j(3) show False
      by simp
  next
    case 2
    from bands_ordered [OF assms(1,2) j(1) 2 i(2)] j(4) i(3) show False
      by simp
  qed
qed

lemma bands_split_last:
  assumes "1 \<le> t"
  shows "bands h t = map (\<lambda>i. (i * quot h t, (i + 1) * quot h t)) [0..t - 2] @ [((t - 1) * quot h t, h)]"
proof -
  have "[0..t - 1] = [0..t - 2] @ [t - 1]"
    using assms upto_rec2 [of 0 "t - 1"] by simp
  moreover have "map (band h t (quot h t)) [0..t - 2] = map (\<lambda>i. (i * quot h t, (i + 1) * quot h t)) [0..t - 2]"
    by (rule map_cong) (simp_all add: band_def Let_def)
  ultimately show ?thesis
    by (simp add: bands_def band_def Let_def)
qed

lemma bands_total_height:
  assumes "1 \<le> t"
  shows "sum_list (map (\<lambda>(s, e). e - s) (bands h t)) = h"
proof -
  have "sum_list (map (\<lambda>(s, e). e - s) (map (\<lambda>i. (i * quot h t, (i + 1) * quot h t)) [0..t - 2]))
          = sum_list (map (\<lambda>i. quot h t) [0..t - 2])"
    by (simp add: comp_def algebra_simps)
  also have "\<dots> = (t - 1) * quot h t"
    using assms by (simp add: sum_list_triv)
  finally show ?thesis
    by (simp add: bands_split_last [OF assms])
qed


text \<open>
  Claim C5. For \<open>1 \<le> t \<le> h\<close> the \<open>t\<close> bands are those of the formula, with band height
  \<open>h div t\<close>; the first starts at row 0 and the last ends at row \<open>h\<close>; each band ends where the
  next starts; no band is empty; every row of \<open>[0, h)\<close> lies in exactly one band; and the
  heights of the bands add up to \<open>h\<close>.
\<close>

theorem bands_partition:
  assumes "1 \<le> t" and "t \<le> h"
  shows "length (bands h t) = nat t
    \<and> (\<forall>i. 0 \<le> i \<and> i < t \<longrightarrow>
          bands h t ! nat i = (i * (h div t), if i = t - 1 then h else (i + 1) * (h div t)))
    \<and> fst (bands h t ! 0) = 0
    \<and> snd (bands h t ! nat (t - 1)) = h
    \<and> (\<forall>i. 0 \<le> i \<and> i < t - 1 \<longrightarrow> snd (bands h t ! nat i) = fst (bands h t ! nat (i + 1)))
    \<and> (\<forall>i. 0 \<le> i \<and> i < t \<longrightarrow> fst (bands h t ! nat i) < snd (bands h t ! nat i))
    \<and> (\<forall>y. 0 \<le> y \<and> y < h \<longrightarrow>
          (\<exists>!i. 0 \<le> i \<and> i < t \<and> fst (bands h t ! nat i) \<le> y \<and> y < snd (bands h t ! nat i)))
    \<and> sum_list (map (\<lambda>(s, e). e - s) (bands h t)) = h"
proof (intro conjI allI impI)
  show "length (bands h t) = nat t"
    by (rule length_bands)
next
  fix i assume "0 \<le> i \<and> i < t"
  then show "bands h t ! nat i = (i * (h div t), if i = t - 1 then h else (i + 1) * (h div t))"
    using assms by (simp add: band_formula)
next
  show "fst (bands h t ! 0) = 0"
    using assms band_formula [of t h 0] by simp
next
  show "snd (bands h t ! nat (t - 1)) = h"
    using assms by (simp add: band_formula)
next
  fix i assume "0 \<le> i \<and> i < t - 1"
  then show "snd (bands h t ! nat i) = fst (bands h t ! nat (i + 1))"
    using assms by (simp add: band_formula)
next
  fix i assume "0 \<le> i \<and> i < t"
  then show "fst (bands h t ! nat i) < snd (bands h t ! nat i)"
    using assms by (simp add: band_nonempty)
next
  fix y assume y: "0 \<le> y \<and> y < h"
  show "\<exists>!i. 0 \<le> i \<and> i < t \<and> fst (bands h t ! nat i) \<le> y \<and> y < snd (bands h t ! nat i)"
  proof (rule ex_ex1I)
    show "\<exists>i. 0 \<le> i \<and> i < t \<and> fst (bands h t ! nat i) \<le> y \<and> y < snd (bands h t ! nat i)"
      using assms y by (simp add: band_exists)
  next
    fix i j
    assume "0 \<le> i \<and> i < t \<and> fst (bands h t ! nat i) \<le> y \<and> y < snd (bands h t ! nat i)"
      and "0 \<le> j \<and> j < t \<and> fst (bands h t ! nat j) \<le> y \<and> y < snd (bands h t ! nat j)"
    then show "i = j"
      using band_unique [OF assms, of i y j] by simp
  qed
next
  show "sum_list (map (\<lambda>(s, e). e - s) (bands h t)) = h"
    using assms(1) by (rule bands_total_height)
qed

theorem bands_partition_witness:
  "(1::int) \<le> 3 \<and> (3::int) \<le> 10
   \<and> bands 10 3 = [(0, 3), (3, 6), (6, 10)]
   \<and> length (bands 10 3) = 3
   \<and> snd (bands 10 3 ! 0) = fst (bands 10 3 ! 1)
   \<and> snd (bands 10 3 ! 1) = fst (bands 10 3 ! 2)
   \<and> sum_list (map (\<lambda>(s, e). e - s) (bands 10 3)) = 10"
proof -
  have e: "bands 10 3 = [(0, 3), (3, 6), (6, 10)]"
    by code_simp
  from bands_partition [of 3 10] have "sum_list (map (\<lambda>(s, e). e - s) (bands 10 3)) = 10"
    by simp
  then show ?thesis
    by (simp add: e)
qed

section \<open>The merge of the coordinator\<close>

lemma splice_step:
  assumes "j < length A" and "length B = length A"
  shows "(take j A @ drop j B)[j := A ! j] = take (Suc j) A @ drop (Suc j) B"
proof -
  have d: "drop j B = B ! j # drop (Suc j) B"
    using assms by (simp add: Cons_nth_drop_Suc)
  have l: "length (take j A) = j"
    using assms(1) by simp
  have "(take j A @ B ! j # drop (Suc j) B)[length (take j A) := A ! j]
          = take j A @ A ! j # drop (Suc j) B"
    by (rule list_update_length)
  then show ?thesis
    using assms(1) by (simp add: d l take_Suc_conv_app_nth)
qed

lemma has_shape_splice:
  assumes "has_shape M h w" and "has_shape N h w" and "0 \<le> i" and "i \<le> h"
  shows "has_shape (take (nat i) M @ drop (nat i) N) h w"
proof -
  have "list_all (\<lambda>r. int (length r) = w) (take (nat i) M)"
    using assms(1) by (auto simp: has_shape_def list_all_iff dest: in_set_takeD)
  moreover have "list_all (\<lambda>r. int (length r) = w) (drop (nat i) N)"
    using assms(2) by (auto simp: has_shape_def list_all_iff dest: in_set_dropD)
  moreover have "int (length (take (nat i) M @ drop (nat i) N)) = h"
    using assms by (auto simp: has_shape_def)
  ultimately show ?thesis
    by (simp add: has_shape_def)
qed

lemma copy_row:
  assumes M: "has_shape M h w" and N: "has_shape N h w" and i: "0 \<le> i" "i < h"
    and w: "w \<le> MaxInt64"
  shows "for_lt 0 w (\<lambda>j m. Some (copy_cell M 0 i j m)) N = Some (Inr (N[nat i := M ! nat i]))"
proof -
  define Mi where "Mi = M ! nat i"
  define Ni where "Ni = N ! nat i"
  have lenM: "int (length M) = h" and lenN: "int (length N) = h"
    using M N by (simp_all add: has_shape_nth)
  have ni: "nat i < length M" "nat i < length N"
    using i lenM lenN by simp_all
  have lMi: "int (length Mi) = w" and lNi: "int (length Ni) = w"
    using M N ni by (simp_all add: has_shape_nth Mi_def Ni_def)
  define Q where "Q = (\<lambda>j N'. N' = N[nat i := take (nat j) Mi @ drop (nat j) Ni])"
  have init: "Q 0 N"
    by (simp add: Q_def Ni_def)
  have step: "\<exists>N''. Some (copy_cell M 0 i j N') = Some (Inr N'') \<and> Q (j + 1) N''"
    if "0 \<le> j" "j < w" "Q j N'" for j N'
  proof -
    define r where "r = take (nat j) Mi @ drop (nat j) Ni"
    have N': "N' = N[nat i := r]"
      using that(3) by (simp add: Q_def r_def)
    have nj: "nat j < length Mi"
      using that(1,2) lMi by simp
    have lr: "length r = length Mi"
      using nj lMi lNi by (simp add: r_def)
    have row: "index N' i = Inr r"
      using i ni by (simp add: index_def N')
    have prow: "index M i = Inr Mi"
      using i ni by (simp add: index_def Mi_def)
    have v: "index Mi j = Inr (Mi ! nat j)"
      using that(1) nj by (simp add: index_def)
    have a: "assign r j (Mi ! nat j) = Inr (r[nat j := Mi ! nat j])"
      using that(1) nj lr by (simp add: assign_def)
    have run: "copy_cell M 0 i j N' = Inr (N'[nat i := r[nat j := Mi ! nat j]])"
      by (simp add: copy_cell_def row prow v a)
    have "r[nat j := Mi ! nat j] = take (Suc (nat j)) Mi @ drop (Suc (nat j)) Ni"
      unfolding r_def using nj lMi lNi by (intro splice_step) simp_all
    moreover have "nat (j + 1) = Suc (nat j)"
      using that(1) by simp
    ultimately have "Q (j + 1) (N'[nat i := r[nat j := Mi ! nat j]])"
      by (simp add: Q_def N')
    with run show ?thesis by blast
  qed
  have lo: "MinInt64 \<le> 0"
    by (simp add: MinInt64_def)
  have "\<exists>r. for_lt 0 w (\<lambda>j m. Some (copy_cell M 0 i j m)) N = Some (Inr r) \<and> Q (max 0 w) r"
    using lo w init step by (rule for_lt_total [where P = Q])
  moreover have "0 \<le> w"
    using lMi by simp
  ultimately show ?thesis
    using lMi lNi by (auto simp: Q_def Mi_def max_def)
qed

lemma copy_rows:
  assumes M: "has_shape M h w" and N: "has_shape N h w"
    and h: "h \<le> MaxInt64" and w: "w \<le> MaxInt64"
  shows "for_lt 0 (0 + int (length M)) (\<lambda>i. for_lt 0 w (\<lambda>j m. Some (copy_cell M 0 i j m))) N
           = Some (Inr M)"
proof -
  have lenM: "int (length M) = h" and lenN: "int (length N) = h"
    using M N by (simp_all add: has_shape_nth)
  define P where "P = (\<lambda>i N'. N' = take (nat i) M @ drop (nat i) N)"
  have init: "P 0 N"
    by (simp add: P_def)
  have step: "\<exists>N''. for_lt 0 w (\<lambda>j m. Some (copy_cell M 0 i j m)) N' = Some (Inr N'') \<and> P (i + 1) N''"
    if "0 \<le> i" "i < h" "P i N'" for i N'
  proof -
    have N': "N' = take (nat i) M @ drop (nat i) N"
      using that(3) by (simp add: P_def)
    have sh: "has_shape N' h w"
      unfolding N' using M N that(1,2) by (intro has_shape_splice) simp_all
    have run: "for_lt 0 w (\<lambda>j m. Some (copy_cell M 0 i j m)) N' = Some (Inr (N'[nat i := M ! nat i]))"
      using M sh that(1,2) w by (rule copy_row)
    have "N'[nat i := M ! nat i] = take (Suc (nat i)) M @ drop (Suc (nat i)) N"
      unfolding N' using that(1,2) lenM lenN by (intro splice_step) simp_all
    moreover have "nat (i + 1) = Suc (nat i)"
      using that(1) by simp
    ultimately have "P (i + 1) (N'[nat i := M ! nat i])"
      by (simp add: P_def)
    with run show ?thesis by blast
  qed
  have lo: "MinInt64 \<le> 0"
    by (simp add: MinInt64_def)
  have "\<exists>r. for_lt 0 h (\<lambda>i. for_lt 0 w (\<lambda>j m. Some (copy_cell M 0 i j m))) N = Some (Inr r)
          \<and> P (max 0 h) r"
    using lo h init step by (rule for_lt_total [where P = P])
  moreover have "0 \<le> h"
    using lenM by simp
  ultimately show ?thesis
    using lenM lenN by (auto simp: P_def max_def)
qed

section \<open>More workers than rows\<close>

lemma quot_small: "0 \<le> h \<Longrightarrow> h < t \<Longrightarrow> quot h t = 0"
  by (simp add: quot_nonneg)

lemma bands_degenerate:
  assumes "0 \<le> h" and "h < t"
  shows "bands h t = replicate (nat (t - 1)) (0, 0) @ [(0, h)]"
proof -
  have "1 \<le> t"
    using assms by simp
  from bands_split_last [OF this, of h]
  have "bands h t = map (\<lambda>i. (0, 0)) [0..t - 2] @ [(0, h)]"
    using assms by (simp add: quot_small)
  moreover have "nat (t - 1) = length [0..t - 2]"
    by simp
  ultimately show ?thesis
    by (simp only: map_replicate_const)
qed

lemma merge_band_empty:
  assumes "0 \<le> t" and "t < threads - 1"
  shows "merge_band w 0 data (replicate (nat (threads - 1)) (0, 0) @ [(0, h)]) t N = Some (Inr N)"
proof -
  have "nat t < nat (threads - 1)"
    using assms by simp
  then have b: "index (replicate (nat (threads - 1)) (0, 0) @ [(0, h)]) t = Inr (0, 0)"
    using assms by (simp add: index_def nth_append)
  show ?thesis
    by (simp add: merge_band_def b worker_def medianFilter_empty for_lt_stop)
qed

lemma merge_band_whole:
  assumes "has_shape N h w" and "1 \<le> threads" and "is_int64 h" and "is_int64 w"
  shows "merge_band w 0 data (replicate (nat (threads - 1)) (0, 0) @ [(0, h)]) (threads - 1) N
           = medianFilter 0 h 0 w data"
proof -
  have "(replicate (nat (threads - 1)) (0, 0) @ [(0, h)]) ! nat (threads - 1) = (0, h)"
    by (simp add: nth_append)
  then have b: "index (replicate (nat (threads - 1)) (0, 0) @ [(0, h)]) (threads - 1) = Inr (0, h)"
    using assms(2) by (simp add: index_def)
  show ?thesis
  proof (cases "medianFilter 0 h 0 w data")
    case None
    then show ?thesis
      by (simp add: merge_band_def b worker_def)
  next
    case (Some r)
    show ?thesis
    proof (cases r)
      case (Inl e)
      with Some show ?thesis
        by (simp add: merge_band_def b worker_def)
    next
      case (Inr M)
      with Some have run: "medianFilter 0 h 0 w data = Some (Inr M)"
        by simp
      from medianFilter_shape(1) [OF run] have "has_shape M h w"
        using assms(3,4) by (simp add: i64_id)
      then have "for_lt 0 (0 + int (length M)) (\<lambda>i. for_lt 0 w (\<lambda>j m. Some (copy_cell M 0 i j m))) N
                   = Some (Inr M)"
        using assms(1) by (rule copy_rows) (use assms(3,4) in \<open>simp_all add: is_int64_def\<close>)
      then show ?thesis
        using run by (simp add: merge_band_def b worker_def)
    qed
  qed
qed

lemma filter_run_degenerate:
  assumes "0 \<le> h" and "h < threads" and "makeslice_ok 8 threads" and "is_int64 w"
  shows "filter_run h w threads data = medianFilter 0 h 0 w data"
proof (cases "threads = 1")
  case True
  then show ?thesis
    by (simp add: filter_run_def)
next
  case False
  with assms have t: "2 \<le> threads"
    by simp
  from makeslice_ok_int64 [of threads] assms(3) have tr: "threads \<le> MaxInt64"
    by simp
  with assms(1,2) have hr: "is_int64 h"
    by (simp add: is_int64_def MinInt64_def)
  have d: "dispatch h threads = Inr (replicate (nat (threads - 1)) (0, 0) @ [(0, h)])"
    using t assms by (simp add: dispatch_def bands_degenerate)
  have lo: "MinInt64 \<le> 0"
    by (simp add: MinInt64_def)
  show ?thesis
  proof (cases "makeMatrix h w")
    case (Inl e)
    then show ?thesis
      using t d hr assms(4) by (simp add: filter_run_def medianFilter_unfold i64_id)
  next
    case (Inr N)
    from makeMatrix_Inr [OF Inr] have sh: "has_shape N h w"
      using assms(1) by (auto simp: has_shape_def makeslice_ok_def list_all_iff)
    let ?body = "merge_band w 0 data (replicate (nat (threads - 1)) (0, 0) @ [(0, h)])"
    have first: "for_lt 0 (threads - 1) ?body N = Some (Inr N)"
      by (rule for_lt_skip) (use lo tr in \<open>simp_all add: merge_band_empty\<close>)
    have "for_lt (threads - 1) (threads - 1 + 1) ?body N = ?body (threads - 1) N"
      by (rule for_lt_single) (use t tr in \<open>simp_all add: MinInt64_def\<close>)
    then have last: "for_lt (threads - 1) threads ?body N = medianFilter 0 h 0 w data"
      using sh t hr assms(4) by (simp add: merge_band_whole)
    have "for_lt 0 threads ?body N =
            (case for_lt 0 (threads - 1) ?body N of
               None \<Rightarrow> None
             | Some r \<Rightarrow> (case r of Inl e \<Rightarrow> Some (Inl e)
                          | Inr s' \<Rightarrow> for_lt (threads - 1) threads ?body s'))"
      by (rule for_lt_split) (use t lo tr in simp_all)
    then have "for_lt 0 threads ?body N = medianFilter 0 h 0 w data"
      by (simp add: first last)
    then show ?thesis
      using t assms d Inr by (simp add: filter_run_def quot_small)
  qed
qed

section \<open>Thread counts the coordinator does not check\<close>

text \<open>
  Claim C2, as amended. \<^verbatim>\<open>filter\<close> has no check of the thread count. With a count that is
  negative or above the limit of \<^verbatim>\<open>make\<close> for the slice of channels the run panics when it
  makes that slice, and with count 0 when it divides the height by it: in each case the
  dispatch ends with the panic, so no worker is started, and the run ends with the same
  panic whatever the source is. With more threads than rows, and a count within the limit
  of \<^verbatim>\<open>make\<close>, no error is reported: with 2 threads or more the band height is 0, the
  dispatch hands out the empty band \<open>[0, 0)\<close> to all workers but the last and the band
  \<open>[0, h)\<close> to the last, the kernel runs on each (on the empty band it returns the empty
  grid), and the outcome of the run is that of one call of the kernel on the whole image.
\<close>

theorem filter_run_without_validation:
  "(\<not> makeslice_ok 8 threads \<longrightarrow>
        dispatch h threads = Inl MakesliceLenOutOfRange
        \<and> filter_run h w threads data = Some (Inl MakesliceLenOutOfRange))
   \<and> (threads = 0 \<longrightarrow>
        dispatch h threads = Inl IntegerDivideByZero
        \<and> filter_run h w threads data = Some (Inl IntegerDivideByZero))
   \<and> (0 \<le> h \<and> h < threads \<and> 2 \<le> threads \<and> makeslice_ok 8 threads \<longrightarrow>
        dispatch h threads = Inr (replicate (nat (threads - 1)) (0, 0) @ [(0, h)])
        \<and> worker 0 0 0 w data = Some (Inr [])
        \<and> worker 0 h 0 w data = medianFilter 0 h 0 w data)
   \<and> (0 \<le> h \<and> h < threads \<and> makeslice_ok 8 threads \<and> is_int64 w \<longrightarrow>
        filter_run h w threads data = medianFilter 0 h 0 w data)"
proof (intro conjI impI)
  assume a: "\<not> makeslice_ok 8 threads"
  then show "dispatch h threads = Inl MakesliceLenOutOfRange"
    by (simp add: dispatch_def)
  from a have "threads \<noteq> 1"
    by (auto simp: makeslice_ok_def maxAlloc_def)
  with a show "filter_run h w threads data = Some (Inl MakesliceLenOutOfRange)"
    by (simp add: filter_run_def dispatch_def)
next
  assume "threads = 0"
  then show "dispatch h threads = Inl IntegerDivideByZero"
    by (simp add: dispatch_def makeslice_ok_def maxAlloc_def)
next
  assume "threads = 0"
  then show "filter_run h w threads data = Some (Inl IntegerDivideByZero)"
    by (simp add: filter_run_def dispatch_def makeslice_ok_def maxAlloc_def)
next
  assume "0 \<le> h \<and> h < threads \<and> 2 \<le> threads \<and> makeslice_ok 8 threads"
  then show "dispatch h threads = Inr (replicate (nat (threads - 1)) (0, 0) @ [(0, h)])"
    by (simp add: dispatch_def bands_degenerate)
next
  show "worker 0 0 0 w data = Some (Inr [])"
    by (simp add: worker_def medianFilter_empty)
next
  show "worker 0 h 0 w data = medianFilter 0 h 0 w data"
    by (simp add: worker_def)
next
  assume "0 \<le> h \<and> h < threads \<and> makeslice_ok 8 threads \<and> is_int64 w"
  then show "filter_run h w threads data = medianFilter 0 h 0 w data"
    by (simp add: filter_run_degenerate)
qed

theorem filter_run_without_validation_witness:
  "\<not> makeslice_ok 8 (- 2) \<and> \<not> makeslice_ok 8 (2 ^ 62) \<and> makeslice_ok 8 7 \<and> is_int64 5
   \<and> dispatch 5 (- 2) = Inl MakesliceLenOutOfRange
   \<and> filter_run 5 5 (- 2) (makeImmutableMatrix grid5x5) = Some (Inl MakesliceLenOutOfRange)
   \<and> dispatch 5 (2 ^ 62) = Inl MakesliceLenOutOfRange
   \<and> filter_run 5 5 (2 ^ 62) (makeImmutableMatrix grid5x5) = Some (Inl MakesliceLenOutOfRange)
   \<and> dispatch 5 0 = Inl IntegerDivideByZero
   \<and> filter_run 5 5 0 (makeImmutableMatrix grid5x5) = Some (Inl IntegerDivideByZero)
   \<and> dispatch 5 7 = Inr (replicate 6 (0, 0) @ [(0, 5)])
   \<and> worker 0 0 0 5 (makeImmutableMatrix grid5x5) = Some (Inr [])
   \<and> worker 0 5 0 5 (makeImmutableMatrix grid5x5) = medianFilter 0 5 0 5 (makeImmutableMatrix grid5x5)
   \<and> filter_run 5 5 7 (makeImmutableMatrix grid5x5) = medianFilter 0 5 0 5 (makeImmutableMatrix grid5x5)"
proof -
  have m: "\<not> makeslice_ok 8 (- 2)" "\<not> makeslice_ok 8 (2 ^ 62)" "makeslice_ok 8 7" "is_int64 5"
    by (simp_all add: makeslice_ok_def maxAlloc_def is_int64_def MinInt64_def MaxInt64_def)
  show ?thesis
    using m
      filter_run_without_validation [where threads = "- 2" and h = 5 and w = 5
        and data = "makeImmutableMatrix grid5x5"]
      filter_run_without_validation [where threads = "2 ^ 62" and h = 5 and w = 5
        and data = "makeImmutableMatrix grid5x5"]
      filter_run_without_validation [where threads = 0 and h = 5 and w = 5
        and data = "makeImmutableMatrix grid5x5"]
      filter_run_without_validation [where threads = 7 and h = 5 and w = 5
        and data = "makeImmutableMatrix grid5x5"]
    by simp
qed

text \<open>
  The claim as stated, that more threads than rows are reported as a configuration error
  before any band is dispatched, fails on the 5 by 5 image with 6 threads: six bands are
  dispatched and the filtered image is returned.
\<close>

theorem more_threads_than_rows_counterexample:
  "(5::int) < 6
   \<and> dispatch 5 6 = Inr [(0, 0), (0, 0), (0, 0), (0, 0), (0, 0), (0, 5)]
   \<and> filter_run 5 5 6 (makeImmutableMatrix grid5x5) = Some (Inr
     [[0, 0, 0, 0, 0],
      [0, 0, 0, 0, 0],
      [0, 0, 13, 0, 0],
      [0, 0, 0, 0, 0],
      [0, 0, 0, 0, 0]])"
  unfolding grid5x5_def by code_simp

section \<open>The coordinator on one thread\<close>

text \<open>
  Claim C4. With \<open>threads = 1\<close> the coordinator returns what one call of the kernel on the
  whole region \<open>[0, height) \<times> [0, width)\<close> returns, panics included: no band is computed
  and nothing is merged.
\<close>

theorem filter_run_single_thread:
  "filter_run height width 1 data = medianFilter 0 height 0 width data"
  by (simp add: filter_run_def)

section \<open>The 10 by 10 scenario\<close>

text \<open>
  Claim C3. On the 10 by 10 grid of samples 100, one thread gives 100 everywhere but on a
  border of width 2, which is 0. Two threads (bands \<open>[0,5)\<close> and \<open>[5,10)\<close>) give 0 in rows
  0, 1, 8, 9 and also in rows 3, 4, 5, 6; rows 2 and 7 keep 100 in columns 2 to 7.
\<close>

theorem scenario_10x10:
  "filter_run 10 10 1 (makeImmutableMatrix (replicate 10 (replicate 10 100))) = Some (Inr
     [[0, 0, 0, 0, 0, 0, 0, 0, 0, 0],
      [0, 0, 0, 0, 0, 0, 0, 0, 0, 0],
      [0, 0, 100, 100, 100, 100, 100, 100, 0, 0],
      [0, 0, 100, 100, 100, 100, 100, 100, 0, 0],
      [0, 0, 100, 100, 100, 100, 100, 100, 0, 0],
      [0, 0, 100, 100, 100, 100, 100, 100, 0, 0],
      [0, 0, 100, 100, 100, 100, 100, 100, 0, 0],
      [0, 0, 100, 100, 100, 100, 100, 100, 0, 0],
      [0, 0, 0, 0, 0, 0, 0, 0, 0, 0],
      [0, 0, 0, 0, 0, 0, 0, 0, 0, 0]])
   \<and> bands 10 2 = [(0, 5), (5, 10)]
   \<and> filter_run 10 10 2 (makeImmutableMatrix (replicate 10 (replicate 10 100))) = Some (Inr
     [[0, 0, 0, 0, 0, 0, 0, 0, 0, 0],
      [0, 0, 0, 0, 0, 0, 0, 0, 0, 0],
      [0, 0, 100, 100, 100, 100, 100, 100, 0, 0],
      [0, 0, 0, 0, 0, 0, 0, 0, 0, 0],
      [0, 0, 0, 0, 0, 0, 0, 0, 0, 0],
      [0, 0, 0, 0, 0, 0, 0, 0, 0, 0],
      [0, 0, 0, 0, 0, 0, 0, 0, 0, 0],
      [0, 0, 100, 100, 100, 100, 100, 100, 0, 0],
      [0, 0, 0, 0, 0, 0, 0, 0, 0, 0],
      [0, 0, 0, 0, 0, 0, 0, 0, 0, 0]])"
  by code_simp

section \<open>The arithmetic of the luminance\<close>


lemma round53_small: "bitlen n \<le> 53 \<Longrightarrow> round53 n = n"
  by (simp add: round53_def)

lemma round53_err:
  assumes "0 \<le> n" and "n < 2 ^ 73"
  shows "\<bar>round53 n - n\<bar> \<le> 2 ^ 19 \<and> 0 \<le> round53 n"
proof (cases "bitlen n \<le> 53")
  case True
  then show ?thesis
    using assms(1) by (simp add: round53_small)
next
  case False
  define k where "k = nat (bitlen n - 53) - 1"
  define h :: int where "h = 2 ^ k"
  define p :: int where "p = 2 ^ nat (bitlen n - 53)"
  define q where "q = n div p"
  define r where "r = n mod p"
  have "bitlen n \<le> 73"
    using assms by (simp add: bitlen_le_iff_power)
  with False have d: "nat (bitlen n - 53) = Suc k" and k: "k \<le> 19"
    by (simp_all add: k_def)
  have p: "p = 2 * h"
    by (simp add: p_def h_def d)
  have hpos: "0 < h"
    by (simp add: h_def)
  have "h \<le> 2 ^ 19"
    unfolding h_def using k by (intro power_increasing) simp_all
  then have hle: "h \<le> 524288"
    by simp
  have half: "p div 2 = h"
    by (simp add: p)
  have n: "n = q * p + r"
    by (simp add: q_def r_def)
  have r: "0 \<le> r" "r < p"
    using hpos by (simp_all add: r_def p)
  have q: "0 \<le> q"
    using assms(1) hpos by (simp add: q_def p pos_imp_zdiv_nonneg_iff)
  then have qp: "0 \<le> q * p"
    using hpos by (simp add: p)
  have eq: "round53 n = (if r < h \<or> (r = h \<and> even q) then q else q + 1) * p"
    using False by (simp add: round53_def Let_def p_def [symmetric] q_def [symmetric] r_def [symmetric] half)
  show ?thesis
  proof (cases "r < h \<or> (r = h \<and> even q)")
    case True
    then have "round53 n = q * p"
      by (simp add: eq)
    then show ?thesis
      using n r True hle qp by auto
  next
    case False
    have "round53 n = (q + 1) * p"
      by (simp only: eq False if_False)
    then have "round53 n = q * p + p"
      by (simp add: algebra_simps)
    then show ?thesis
      using n r False hle qp p by auto
  qed
qed

lemma constants_nearest:
  "round53 c299 = c299 \<and> \<bar>1000 * c299 - 299 * 2 ^ 56\<bar> \<le> 500 * 2 ^ nat (bitlen c299 - 53)"
  "round53 c587 = c587 \<and> \<bar>1000 * c587 - 587 * 2 ^ 56\<bar> \<le> 500 * 2 ^ nat (bitlen c587 - 53)"
  "round53 c114 = c114 \<and> \<bar>1000 * c114 - 114 * 2 ^ 56\<bar> \<le> 500 * 2 ^ nat (bitlen c114 - 53)"
  by code_simp+

lemma lum_bound:
  assumes "0 \<le> r" "r \<le> 65535" "0 \<le> g" "g \<le> 65535" "0 \<le> b" "b \<le> 65535"
  shows "\<bar>1000 * lum r g b - (299 * r + 587 * g + 114 * b) * 2 ^ 56\<bar> \<le> 2 ^ 32 \<and> 0 \<le> lum r g b"
proof -
  define A where "A = round53 (c299 * r)"
  define B where "B = round53 (c587 * g)"
  define C where "C = round53 (c114 * b)"
  define S where "S = round53 (A + B)"
  define T where "T = round53 (S + C)"
  have a: "\<bar>A - c299 * r\<bar> \<le> 2 ^ 19 \<and> 0 \<le> A"
    unfolding A_def using assms(1,2) by (intro round53_err) (simp_all add: c299_def)
  have b: "\<bar>B - c587 * g\<bar> \<le> 2 ^ 19 \<and> 0 \<le> B"
    unfolding B_def using assms(3,4) by (intro round53_err) (simp_all add: c587_def)
  have c: "\<bar>C - c114 * b\<bar> \<le> 2 ^ 19 \<and> 0 \<le> C"
    unfolding C_def using assms(5,6) by (intro round53_err) (simp_all add: c114_def)
  have s: "\<bar>S - (A + B)\<bar> \<le> 2 ^ 19 \<and> 0 \<le> S"
    unfolding S_def using a b assms(1-4) by (intro round53_err) (auto simp: c299_def c587_def abs_le_iff)
  have t: "\<bar>T - (S + C)\<bar> \<le> 2 ^ 19 \<and> 0 \<le> T"
    unfolding T_def using a b c s assms by (intro round53_err) (auto simp: c299_def c587_def c114_def abs_le_iff)
  have "lum r g b = T"
    by (simp add: lum_def T_def S_def A_def B_def C_def)
  then show ?thesis
    using a b c s t assms by (auto simp: c299_def c587_def c114_def abs_le_iff)
qed

lemma div_eqI:
  fixes s :: int
  assumes "q * k \<le> s" and "s < (q + 1) * k"
  shows "s div k = q"
proof (rule int_div_pos_eq)
  show "s = k * q + (s - q * k)"
    by simp
  show "0 \<le> s - q * k"
    using assms(1) by simp
  show "s - q * k < k"
    using assms(2) by (simp add: algebra_simps)
qed

lemma floor_near:
  fixes s W :: int
  assumes "\<bar>1000 * s - W * 2 ^ 56\<bar> \<le> 2 ^ 32" and "0 \<le> s"
  shows "s div 2 ^ 64 = W div 256000 \<or> (256000 dvd W \<and> s div 2 ^ 64 = W div 256000 - 1)"
proof -
  define F where "F = W div 256000"
  define \<rho> where "\<rho> = W mod 256000"
  have W: "W = 256000 * F + \<rho>" and rho: "0 \<le> \<rho>" "\<rho> < 256000"
    by (simp_all add: F_def \<rho>_def)
  show ?thesis
  proof (cases "\<rho> = 0")
    case True
    then have "256000 dvd W"
      by (simp add: \<rho>_def mod_eq_0_iff_dvd)
    moreover have "s div 2 ^ 64 = F \<or> s div 2 ^ 64 = F - 1"
    proof (cases "F * 2 ^ 64 \<le> s")
      case True
      moreover have "s < (F + 1) * 2 ^ 64"
        using assms W \<open>\<rho> = 0\<close> by simp
      ultimately have "s div 2 ^ 64 = F"
        by (rule div_eqI)
      then show ?thesis ..
    next
      case False
      then have "s < (F - 1 + 1) * 2 ^ 64"
        by simp
      moreover have "(F - 1) * 2 ^ 64 \<le> s"
        using assms W \<open>\<rho> = 0\<close> by simp
      ultimately have "s div 2 ^ 64 = F - 1"
        by (intro div_eqI)
      then show ?thesis ..
    qed
    ultimately show ?thesis
      by (auto simp: F_def)
  next
    case False
    with rho have "1 \<le> \<rho>"
      by simp
    then have "F * 2 ^ 64 \<le> s" and "s < (F + 1) * 2 ^ 64"
      using assms W rho by simp_all
    then have "s div 2 ^ 64 = F"
      by (rule div_eqI)
    then show ?thesis
      by (simp add: F_def)
  qed
qed


lemma luma_sample_spec:
  assumes "uint r \<le> 65535" and "uint g \<le> 65535" and "uint b \<le> 65535"
  shows "uint (luma_sample r g b) = spec_luminance (uint r) (uint g) (uint b)
         \<or> (256000 dvd 299 * uint r + 587 * uint g + 114 * uint b
            \<and> uint (luma_sample r g b) = spec_luminance (uint r) (uint g) (uint b) - 1)"
proof -
  define W where "W = 299 * uint r + 587 * uint g + 114 * uint b"
  define s where "s = lum (uint r) (uint g) (uint b)"
  have bound: "\<bar>1000 * s - W * 2 ^ 56\<bar> \<le> 2 ^ 32 \<and> 0 \<le> s"
    unfolding s_def W_def using assms by (intro lum_bound) simp_all
  then have near: "s div 2 ^ 64 = W div 256000 \<or> (256000 dvd W \<and> s div 2 ^ 64 = W div 256000 - 1)"
    by (intro floor_near) simp_all
  have "0 \<le> W" and "W \<le> 65535000"
    using assms by (simp_all add: W_def)
  then have F: "0 \<le> W div 256000" "W div 256000 \<le> 255"
    by simp_all
  have "0 \<le> s div 2 ^ 64"
    using bound by (simp add: pos_imp_zdiv_nonneg_iff)
  with near F have "0 \<le> s div 2 ^ 64" and "s div 2 ^ 64 < 2 ^ 8"
    by auto
  then have "uint (word_of_int (s div 2 ^ 64) :: u8) = s div 2 ^ 64"
    by (simp add: uint_word_of_int_eq take_bit_int_eq_self)
  then have "uint (luma_sample r g b) = s div 2 ^ 64"
    by (simp add: luma_sample_def s_def)
  with near show ?thesis
    by (simp add: spec_luminance_def W_def)
qed

section \<open>The loops of the luminance extractor\<close>

lemma set_pixel_ok:
  assumes "has_shape m H W" and "0 \<le> y" "y < H" and "0 \<le> x" "x < W"
  shows "set_pixel img y x m =
           Inr (m[nat y := (m ! nat y)
                  [nat x := (case img_rgba img x y of (r, g, b, a) \<Rightarrow> luma_sample r g b)]])"
proof -
  have ny: "nat y < length m"
    using assms(1-3) by (auto simp: has_shape_nth)
  with assms(1) have "int (length (m ! nat y)) = W"
    by (simp add: has_shape_nth)
  with assms(4,5) have nx: "x < int (length (m ! nat y))"
    by simp
  have row: "index m y = Inr (m ! nat y)"
    using assms(2) ny by (simp add: index_def)
  show ?thesis
    using assms(4) nx by (simp add: set_pixel_def row assign_def split: prod.splits)
qed

lemma getPixelData_row:
  assumes sh: "has_shape m H W" and y: "0 \<le> y" "y < H" and w: "W \<le> MaxInt64"
    and prev: "\<forall>a b. 0 \<le> a \<and> a < y \<and> 0 \<le> b \<and> b < W \<longrightarrow>
                 m ! nat a ! nat b = (case img_rgba img b a of (r, g, bl, al) \<Rightarrow> luma_sample r g bl)"
  shows "\<exists>m'. for_lt 0 W (\<lambda>x m. Some (set_pixel img y x m)) m = Some (Inr m')
           \<and> has_shape m' H W
           \<and> (\<forall>a b. 0 \<le> a \<and> a < y + 1 \<and> 0 \<le> b \<and> b < W \<longrightarrow>
                 m' ! nat a ! nat b = (case img_rgba img b a of (r, g, bl, al) \<Rightarrow> luma_sample r g bl))"
proof -
  define S where "S = (\<lambda>a b. case img_rgba img b a of (r, g, bl, al) \<Rightarrow> luma_sample r g bl)"
  define Q where "Q = (\<lambda>x m'. has_shape m' H W
      \<and> (\<forall>a b. 0 \<le> a \<and> 0 \<le> b \<and> b < W \<and> (a < y \<or> (a = y \<and> b < x)) \<longrightarrow> m' ! nat a ! nat b = S a b))"
  have init: "Q 0 m"
    using sh prev by (auto simp: Q_def S_def)
  have step: "\<exists>m''. Some (set_pixel img y x m') = Some (Inr m'') \<and> Q (x + 1) m''"
    if "0 \<le> x" "x < W" "Q x m'" for x m'
  proof -
    from that(3) have sh': "has_shape m' H W"
      and cells: "\<And>a b. 0 \<le> a \<Longrightarrow> 0 \<le> b \<Longrightarrow> b < W \<Longrightarrow> a < y \<or> (a = y \<and> b < x) \<Longrightarrow>
                     m' ! nat a ! nat b = S a b"
      by (simp_all add: Q_def)
    define m'' where "m'' = m'[nat y := (m' ! nat y)[nat x := S y x]]"
    have run: "set_pixel img y x m' = Inr m''"
      using set_pixel_ok [OF sh' y that(1,2)] by (simp add: m''_def S_def)
    have ny: "nat y < length m'"
      using sh' y by (auto simp: has_shape_nth)
    with sh' have "int (length (m' ! nat y)) = W"
      by (simp add: has_shape_nth)
    with that(1,2) have nx: "nat x < length (m' ! nat y)"
      by simp
    have sh'': "has_shape m'' H W"
      unfolding m''_def using sh' ny by (rule has_shape_update)
    have "m'' ! nat a ! nat b = S a b"
      if c: "0 \<le> a" "0 \<le> b" "b < W" "a < y \<or> (a = y \<and> b < x + 1)" for a b
    proof (cases "a = y \<and> b = x")
      case True
      then show ?thesis
        by (simp add: m''_def nth_update2 [OF ny nx])
    next
      case False
      then have "\<not> (nat a = nat y \<and> nat b = nat x)"
        using c(1,2) y(1) \<open>0 \<le> x\<close> by auto
      then have "m'' ! nat a ! nat b = m' ! nat a ! nat b"
        by (auto simp: m''_def nth_update2 [OF ny nx])
      also have "\<dots> = S a b"
        using c False by (intro cells) auto
      finally show ?thesis .
    qed
    then have "Q (x + 1) m''"
      using sh'' by (simp add: Q_def)
    with run show ?thesis by simp
  qed
  have lo: "MinInt64 \<le> 0"
    by (simp add: MinInt64_def)
  have "\<exists>r. for_lt 0 W (\<lambda>x m. Some (set_pixel img y x m)) m = Some (Inr r) \<and> Q (max 0 W) r"
    using lo w init step by (rule for_lt_total [where P = Q])
  then obtain m' where run: "for_lt 0 W (\<lambda>x m. Some (set_pixel img y x m)) m = Some (Inr m')"
    and q: "Q (max 0 W) m'"
    by blast
  from q have "has_shape m' H W"
    by (simp add: Q_def)
  moreover have "m' ! nat a ! nat b = S a b" if "0 \<le> a" "a < y + 1" "0 \<le> b" "b < W" for a b
  proof -
    have W0: "max 0 W = W"
      using that(3,4) by simp
    from q [unfolded Q_def W0]
    have "\<forall>a b. 0 \<le> a \<and> 0 \<le> b \<and> b < W \<and> (a < y \<or> (a = y \<and> b < W)) \<longrightarrow>
                   m' ! nat a ! nat b = S a b"
      by (rule conjunct2)
    from this [rule_format, of a b] that show ?thesis
      by (cases "a < y") simp_all
  qed
  ultimately show ?thesis
    using run by (auto simp: S_def)
qed

lemma getPixelData_grid:
  assumes "img_minX img = 0" and "img_minY img = 0"
    and "makeslice_ok 24 (img_maxY img)" and "makeslice_ok 1 (img_maxX img)"
  shows "\<exists>M. getPixelData img = Some (Inr M)
           \<and> has_shape M (img_maxY img) (img_maxX img)
           \<and> (\<forall>y x. 0 \<le> y \<and> y < img_maxY img \<and> 0 \<le> x \<and> x < img_maxX img \<longrightarrow>
                 M ! nat y ! nat x = (case img_rgba img x y of (r, g, b, a) \<Rightarrow> luma_sample r g b))"
proof -
  define H where "H = img_maxY img"
  define W where "W = img_maxX img"
  define S where "S = (\<lambda>a b. case img_rgba img b a of (r, g, bl, al) \<Rightarrow> luma_sample r g bl)"
  have H: "0 \<le> H" "H \<le> MaxInt64" and W: "0 \<le> W" "W \<le> MaxInt64"
    using assms(3,4) makeslice_ok_int64 [of H] makeslice_ok_int64 [of W]
    by (simp_all add: H_def W_def)
  have ids: "i64 H = H" "i64 W = W"
    using H W by (simp_all add: i64_id' MinInt64_def)
  define pixels where "pixels = replicate (nat H) (replicate (nat W) (0 :: u8))"
  have mk: "makeMatrix H W = Inr pixels"
    using assms(3,4) by (simp add: makeMatrix_def pixels_def H_def W_def)
  define P where "P = (\<lambda>y m. has_shape m H W
      \<and> (\<forall>a b. 0 \<le> a \<and> a < y \<and> 0 \<le> b \<and> b < W \<longrightarrow> m ! nat a ! nat b = S a b))"
  have init: "P 0 pixels"
    using H W by (auto simp: P_def pixels_def has_shape_replicate)
  have step: "\<exists>m'. for_lt 0 W (\<lambda>x m. Some (set_pixel img y x m)) m = Some (Inr m') \<and> P (y + 1) m'"
    if "0 \<le> y" "y < H" "P y m" for y m
    using getPixelData_row [of m H W y img] that W(2) by (simp add: P_def S_def)
  have lo: "MinInt64 \<le> 0"
    by (simp add: MinInt64_def)
  have "\<exists>r. for_lt 0 H (\<lambda>y. for_lt 0 W (\<lambda>x m. Some (set_pixel img y x m))) pixels = Some (Inr r)
          \<and> P (max 0 H) r"
    using lo H(2) init step by (rule for_lt_total [where P = P])
  then obtain M where run: "for_lt 0 H (\<lambda>y. for_lt 0 W (\<lambda>x m. Some (set_pixel img y x m))) pixels
                              = Some (Inr M)"
    and p: "P H M"
    using H(1) by (auto simp: max_def)
  have "getPixelData img = Some (Inr M)"
    using run mk ids assms(1,2) by (simp add: getPixelData_def H_def W_def)
  with p show ?thesis
    by (auto simp: P_def S_def H_def W_def)
qed

section \<open>The luminance extractor\<close>

text \<open>
  Claim C8, as amended. For an image whose bounds start at \<open>(0, 0)\<close> and whose height and
  width are within the limit of \<^verbatim>\<open>make\<close>, the extractor returns a grid of the image's height
  and width. At every point whose red, green and blue values are at most \<^verbatim>\<open>0xffff\<close> the
  sample is \<open>luma_sample\<close> of these three values, whatever the alpha value is, and it equals
  \<open>\<lfloor>(0.299 R + 0.587 G + 0.114 B) / 256\<rfloor>\<close> unless \<open>299 R + 587 G + 114 B\<close> is a multiple of
  256000, that is unless \<open>(0.299 R + 0.587 G + 0.114 B) / 256\<close> is an integer: then it is that
  integer or one less.
\<close>

theorem luminance_extractor:
  assumes "img_minX img = 0" and "img_minY img = 0"
    and "makeslice_ok 24 (img_maxY img)" and "makeslice_ok 1 (img_maxX img)"
  shows "\<exists>M. getPixelData img = Some (Inr M)
           \<and> int (length M) = img_maxY img
           \<and> (\<forall>y x r g b a. 0 \<le> y \<and> y < img_maxY img \<and> 0 \<le> x \<and> x < img_maxX img
                 \<and> img_rgba img x y = (r, g, b, a)
                 \<and> uint r \<le> 65535 \<and> uint g \<le> 65535 \<and> uint b \<le> 65535 \<longrightarrow>
                 int (length (M ! nat y)) = img_maxX img
                 \<and> M ! nat y ! nat x = luma_sample r g b
                 \<and> (uint (M ! nat y ! nat x) = spec_luminance (uint r) (uint g) (uint b)
                    \<or> (256000 dvd 299 * uint r + 587 * uint g + 114 * uint b
                       \<and> uint (M ! nat y ! nat x) = spec_luminance (uint r) (uint g) (uint b) - 1)))"
proof -
  from getPixelData_grid [OF assms] obtain M where run: "getPixelData img = Some (Inr M)"
    and sh: "has_shape M (img_maxY img) (img_maxX img)"
    and cells: "\<And>y x. 0 \<le> y \<Longrightarrow> y < img_maxY img \<Longrightarrow> 0 \<le> x \<Longrightarrow> x < img_maxX img \<Longrightarrow>
                  M ! nat y ! nat x = (case img_rgba img x y of (r, g, b, a) \<Rightarrow> luma_sample r g b)"
    by blast
  have len: "int (length M) = img_maxY img"
    using sh by (simp add: has_shape_nth)
  have "int (length (M ! nat y)) = img_maxX img
        \<and> M ! nat y ! nat x = luma_sample r g b
        \<and> (uint (M ! nat y ! nat x) = spec_luminance (uint r) (uint g) (uint b)
           \<or> (256000 dvd 299 * uint r + 587 * uint g + 114 * uint b
              \<and> uint (M ! nat y ! nat x) = spec_luminance (uint r) (uint g) (uint b) - 1))"
    if "0 \<le> y" "y < img_maxY img" "0 \<le> x" "x < img_maxX img" "img_rgba img x y = (r, g, b, a)"
      "uint r \<le> 65535" "uint g \<le> 65535" "uint b \<le> 65535" for y x r g b a
  proof -
    have "nat y < length M"
      using that(1,2) len by simp
    with sh have "int (length (M ! nat y)) = img_maxX img"
      by (simp add: has_shape_nth)
    moreover have c: "M ! nat y ! nat x = luma_sample r g b"
      using cells [OF that(1-4)] that(5) by simp
    moreover note luma_sample_spec [OF that(6-8)]
    ultimately show ?thesis
      by simp
  qed
  with run len show ?thesis
    by blast
qed

text \<open>
  The claim as stated fails on the image of one point with red, green and blue 256:
  \<open>(0.299 * 256 + 0.587 * 256 + 0.114 * 256) / 256 = 1\<close>, but the sum of the three rounded
  products, rounded, is \<open>255.99999999999997\<close>, and the sample is 0.
\<close>

theorem luminance_rounding_counterexample:
  "getPixelData \<lparr>img_minX = 0, img_minY = 0, img_maxX = 1, img_maxY = 1,
                 img_rgba = (\<lambda>x y. (256, 256, 256, 65535))\<rparr> = Some (Inr [[0]])
   \<and> spec_luminance 256 256 256 = 1
   \<and> lum 256 256 256 = 256 * 2 ^ 56 - 2 ^ 11"
  by code_simp

theorem luminance_extractor_witness:
  "makeslice_ok 24 1 \<and> makeslice_ok 1 2
   \<and> (\<exists>M. getPixelData \<lparr>img_minX = 0, img_minY = 0, img_maxX = 2, img_maxY = 1,
                 img_rgba = (\<lambda>x y. if x = 0 then (25600, 25600, 25600, 65535) else (65535, 65535, 65535, 0))\<rparr>
             = Some (Inr M)
          \<and> int (length M) = 1 \<and> int (length (M ! 0)) = 2
          \<and> M ! 0 ! 1 = luma_sample 65535 65535 65535
          \<and> uint (M ! 0 ! 1) = 255)"
proof -
  define img where "img = \<lparr>img_minX = 0, img_minY = 0, img_maxX = 2, img_maxY = 1,
                 img_rgba = (\<lambda>(x :: int) (y :: int).
                    if x = 0 then (25600 :: u32, 25600 :: u32, 25600 :: u32, 65535 :: u32)
                    else (65535, 65535, 65535, 0))\<rparr>"
  have al: "makeslice_ok 24 1" "makeslice_ok 1 2"
    by (simp_all add: makeslice_ok_def maxAlloc_def)
  from luminance_extractor [where img = img] al
  obtain M where run: "getPixelData img = Some (Inr M)"
    and len: "int (length M) = 1"
    and cells: "\<forall>y x r g b a. 0 \<le> y \<and> y < 1 \<and> 0 \<le> x \<and> x < 2
                 \<and> img_rgba img x y = (r, g, b, a)
                 \<and> uint r \<le> 65535 \<and> uint g \<le> 65535 \<and> uint b \<le> 65535 \<longrightarrow>
                 int (length (M ! nat y)) = 2
                 \<and> M ! nat y ! nat x = luma_sample r g b
                 \<and> (uint (M ! nat y ! nat x) = spec_luminance (uint r) (uint g) (uint b)
                    \<or> (256000 dvd 299 * uint r + 587 * uint g + 114 * uint b
                       \<and> uint (M ! nat y ! nat x) = spec_luminance (uint r) (uint g) (uint b) - 1))"
    by (auto simp: img_def)
  from cells [rule_format, of 0 1 65535 65535 65535 0]
  have "int (length (M ! 0)) = 2 \<and> M ! 0 ! 1 = luma_sample 65535 65535 65535 \<and> uint (M ! 0 ! 1) = 255"
    by (auto simp: img_def spec_luminance_def)
  with run len al show ?thesis
    unfolding img_def by blast
qed

end
